theory Spec2Isabelle
  imports Main
begin

section \<open>Data model\<close>

text \<open>
  The development embeds the bulk-insert path of \<^verbatim>\<open>django_spanner/__init__.py\<close>:
  \<^verbatim>\<open>spanner_bulk_create\<close>, \<^verbatim>\<open>spanner_check_bulk_create_options\<close> and
  \<^verbatim>\<open>spanner_prepare_for_bulk_create\<close>.

  A Python value is a \<open>val option\<close>, with \<open>None\<close> for Python's \<^verbatim>\<open>None\<close>.
  Exceptions are values of the type \<open>error\<close>.
\<close>

datatype val = VInt int | VStr string

type_synonym pyval = "val option"

datatype error =
    ValueError
  | NotSupportedError
  | AssertionError
  | TypeError
  | FieldDoesNotExist
  | DatabaseError

datatype OnConflict = IGNORE | UPDATE

text \<open>The attributes of a model field that the code reads.\<close>

record field =
  attname :: string
  concrete :: bool
  many_to_many :: bool
  primary_key :: bool
  is_auto_field :: bool

text \<open>
  A model instance. \<^verbatim>\<open>obj.pk\<close> is Django's property over the attribute named
  \<^verbatim>\<open>opts.pk.attname\<close>; attribute names are unique per field, so the primary key is kept
  in a component of its own and the other attributes in \<open>attrs\<close>.
  \<open>adding\<close> is \<^verbatim>\<open>obj._state.adding\<close> and \<open>state_db\<close> is \<^verbatim>\<open>obj._state.db\<close>.
\<close>

record entity =
  pk :: pyval
  attrs :: "string \<Rightarrow> pyval"
  adding :: bool
  state_db :: "string option"

text \<open>
  The feature flags of a database connection (\<^verbatim>\<open>connection.features\<close>). The maximum
  number of query parameters is a count, or \<^verbatim>\<open>None\<close> for a backend without a limit.
\<close>

record features =
  supports_ignore_conflicts :: bool
  supports_update_conflicts :: bool
  supports_update_conflicts_with_target :: bool
  can_return_rows_from_bulk_insert :: bool
  max_query_params :: "nat option"

text \<open>
  The effects on the outside world are recorded in a trace: every call of the external
  key strategy, the entry and the exit of the atomic block, and every call of the
  external statement executor \<^verbatim>\<open>_batched_insert\<close>. Objects are named by their position
  in the list \<^verbatim>\<open>objs\<close>.
\<close>

datatype event =
    GetPkValueOnSave nat
  | AtomicEnter string bool
  | BatchedInsert "nat list" "field list" "nat option"
  | AtomicCommit
  | AtomicRollback

text \<open>
  The state: the caller's objects (a store addressed by the position in \<^verbatim>\<open>objs\<close>, since
  the code mutates them in place through the lists \<^verbatim>\<open>objs_with_pk\<close>,
  \<^verbatim>\<open>objs_without_pk\<close> and the chunks, which all share the objects of \<^verbatim>\<open>objs\<close>),
  the rows of the database, the trace, for every call of the executor that returned the
  positions of its batch with the number of rows it returned, and for every call of the
  executor that raised the positions of its batch with the exception. The list \<^verbatim>\<open>objs\<close> is
  taken to hold distinct objects: the object at a position is written only through that
  position.
\<close>

record 'db state =
  ents :: "entity list"
  database :: "'db"
  trace :: "event list"
  returned :: "(nat list \<times> nat) list"
  raised :: "(nat list \<times> error) list"

text \<open>
  The queryset \<^verbatim>\<open>self\<close> with its model metadata \<^verbatim>\<open>self.model._meta\<close>, the connections, and
  the external collaborators of Django that the code calls, taken as parameters:
  \<^item> \<open>get_field\<close> is \<^verbatim>\<open>opts.get_field\<close>, which raises for an unknown name;
  \<^item> \<open>get_pk_value_on_save\<close> is the key strategy \<^verbatim>\<open>obj._meta.pk.get_pk_value_on_save(obj)\<close>
    for the object at a position; it returns \<^verbatim>\<open>None\<close> when the key field has no default;
  \<^item> \<open>prepare_related_fields_for_save\<close> is the check of the related objects, which raises
    or passes (its copy of a related object's key into a foreign-key attribute is not
    among the components of an object kept here);
  \<^item> \<open>batched_insert\<close> is \<^verbatim>\<open>self._batched_insert\<close>: from the rows of the database it gives
    the returned rows or an exception, and the rows of the database afterwards (also
    those written before an exception).
\<close>

record 'db queryset =
  db :: string
  concrete_model :: string
  parent_concrete_models :: "string list"
  concrete_fields :: "field list"
  opts_pk :: field
  db_returning_fields :: "field list"
  get_field :: "string \<Rightarrow> error + field"
  connections :: "string \<Rightarrow> features"
  connection_db :: features
  get_pk_value_on_save :: "nat \<Rightarrow> entity \<Rightarrow> pyval"
  prepare_related_fields_for_save :: "entity \<Rightarrow> error option"
  batched_insert :: "'db \<Rightarrow> entity list \<Rightarrow> field list \<Rightarrow> nat option \<Rightarrow> OnConflict option
                      \<Rightarrow> string list option \<Rightarrow> string list option
                      \<Rightarrow> (error + pyval list list) \<times> 'db"

section \<open>Python helpers\<close>

text \<open>Truth value of an optional list: \<^verbatim>\<open>None\<close> and \<^verbatim>\<open>[]\<close> are false.\<close>

definition truthy :: "'a list option \<Rightarrow> bool" where
  "truthy xs = (case xs of None \<Rightarrow> False | Some ys \<Rightarrow> ys \<noteq> [])"

definition names_of :: "string list option \<Rightarrow> string list" where
  "names_of xs = (case xs of None \<Rightarrow> [] | Some ys \<Rightarrow> ys)"

text \<open>\<^verbatim>\<open>range(x, stop, step)\<close> for a positive step.\<close>

function range_from :: "nat \<Rightarrow> nat \<Rightarrow> nat \<Rightarrow> nat list" where
  "range_from x stop step =
     (if step = 0 \<or> stop \<le> x then [] else x # range_from (x + step) stop step)"
  by pat_completeness auto
termination
  by (relation "measure (\<lambda>(x, stop, step). stop - x)") auto

text \<open>The slice \<^verbatim>\<open>xs[a : a + n]\<close>, which Python cuts at the end of the list.\<close>

definition slice :: "'a list \<Rightarrow> nat \<Rightarrow> nat \<Rightarrow> 'a list" where
  "slice xs a n = take n (drop a xs)"

text \<open>\<^verbatim>\<open>[xs[x : x + batch_size] for x in range(0, len(xs), batch_size)]\<close>\<close>

definition chunked :: "nat \<Rightarrow> 'a list \<Rightarrow> 'a list list" where
  "chunked batch_size xs =
     map (\<lambda>x. slice xs x batch_size) (range_from 0 (length xs) batch_size)"

text \<open>
  \<^verbatim>\<open>django.utils.functional.partition\<close>: it appends every item to the first list when
  the predicate is false and to the second list when it is true.
\<close>

definition partition_fn :: "('a \<Rightarrow> bool) \<Rightarrow> 'a list \<Rightarrow> 'a list \<times> 'a list" where
  "partition_fn predicate vals =
     fold (\<lambda>item (fs, ts). if predicate item then (fs, ts @ [item]) else (fs @ [item], ts))
       vals ([], [])"

section \<open>The conflict options\<close>

text \<open>The list comprehension over \<^verbatim>\<open>get_field\<close>, which stops at the first exception.\<close>

fun get_fields :: "(string \<Rightarrow> error + field) \<Rightarrow> string list \<Rightarrow> error + field list" where
  "get_fields g [] = Inr []"
| "get_fields g (n # ns) =
     (case g n of
        Inl e \<Rightarrow> Inl e
      | Inr f \<Rightarrow> (case get_fields g ns of Inl e \<Rightarrow> Inl e | Inr fs \<Rightarrow> Inr (f # fs)))"

definition spanner_check_bulk_create_options ::
  "'db queryset \<Rightarrow> bool \<Rightarrow> bool \<Rightarrow> string list option \<Rightarrow> string list option
     \<Rightarrow> error + OnConflict option" where
  "spanner_check_bulk_create_options self ignore_conflicts update_conflicts update_fields
       unique_fields =
     (let db_features = connections self (db self) in
      if ignore_conflicts \<and> update_conflicts then Inl ValueError
      else if ignore_conflicts then
        (if \<not> supports_ignore_conflicts db_features then Inl NotSupportedError
         else Inr (Some IGNORE))
      else if update_conflicts then
        (if \<not> supports_update_conflicts db_features then Inl NotSupportedError
         else if \<not> truthy update_fields then Inl ValueError
         else if truthy unique_fields \<and> \<not> supports_update_conflicts_with_target db_features
           then Inl NotSupportedError
         else if \<not> truthy unique_fields \<and> supports_update_conflicts_with_target db_features
           then Inl ValueError
         else
           (case get_fields (get_field self) (names_of update_fields) of
              Inl e \<Rightarrow> Inl e
            | Inr ufs \<Rightarrow>
                if list_ex (\<lambda>f. \<not> concrete f \<or> many_to_many f) ufs then Inl ValueError
                else if list_ex primary_key ufs then Inl ValueError
                else if truthy unique_fields then
                  (case get_fields (get_field self)
                          (filter (\<lambda>name. name \<noteq> ''pk'') (names_of unique_fields)) of
                     Inl e \<Rightarrow> Inl e
                   | Inr qfs \<Rightarrow>
                       if list_ex (\<lambda>f. \<not> concrete f \<or> many_to_many f) qfs then Inl ValueError
                       else Inr (Some UPDATE))
                else Inr (Some UPDATE)))
      else Inr None)"

section \<open>The key assigner\<close>

text \<open>
  \<^verbatim>\<open>spanner_prepare_for_bulk_create\<close>, over the positions of \<^verbatim>\<open>objs\<close> in order. An
  exception of the check of the related objects leaves the loop; the objects assigned so
  far stay assigned.
\<close>

definition assign_pk :: "'db queryset \<Rightarrow> nat \<Rightarrow> 'db state \<Rightarrow> 'db state" where
  "assign_pk self r s =
     (if pk (ents s ! r) = None
      then s\<lparr>ents := (ents s)[r := (ents s ! r)\<lparr>pk := get_pk_value_on_save self r (ents s ! r)\<rparr>],
             trace := trace s @ [GetPkValueOnSave r]\<rparr>
      else s)"

fun spanner_prepare_for_bulk_create ::
  "'db queryset \<Rightarrow> nat list \<Rightarrow> 'db state \<Rightarrow> error option \<times> 'db state" where
  "spanner_prepare_for_bulk_create self [] s = (None, s)"
| "spanner_prepare_for_bulk_create self (r # rs) s =
     (let s1 = assign_pk self r s in
      case prepare_related_fields_for_save self (ents s1 ! r) of
        Some e \<Rightarrow> (Some e, s1)
      | None \<Rightarrow> spanner_prepare_for_bulk_create self rs s1)"

section \<open>The write-back\<close>

text \<open>\<^verbatim>\<open>setattr(obj, field.attname, result)\<close>\<close>

definition setattr_field :: "'db queryset \<Rightarrow> entity \<Rightarrow> field \<Rightarrow> pyval \<Rightarrow> entity" where
  "setattr_field self obj f result =
     (if f = opts_pk self then obj\<lparr>pk := result\<rparr>
      else obj\<lparr>attrs := (attrs obj)(attname f := result)\<rparr>)"

text \<open>
  The inner loop of the objects with a key:
  \<^verbatim>\<open>for result, field in zip(results, opts.db_returning_fields): if field != opts.pk: setattr(...)\<close>
\<close>

definition set_results_with_pk :: "'db queryset \<Rightarrow> pyval list \<Rightarrow> entity \<Rightarrow> entity" where
  "set_results_with_pk self results obj =
     fold (\<lambda>(result, f) ob. if f \<noteq> opts_pk self then setattr_field self ob f result else ob)
       (zip results (db_returning_fields self)) obj"

text \<open>The inner loop of the objects without a key, which sets every returning field.\<close>

definition set_results_without_pk :: "'db queryset \<Rightarrow> pyval list \<Rightarrow> entity \<Rightarrow> entity" where
  "set_results_without_pk self results obj =
     fold (\<lambda>(result, f) ob. setattr_field self ob f result)
       (zip results (db_returning_fields self)) obj"

definition mark_saved :: "'db queryset \<Rightarrow> entity \<Rightarrow> entity" where
  "mark_saved self obj = obj\<lparr>adding := False, state_db := Some (db self)\<rparr>"

text \<open>
  \<^verbatim>\<open>for obj_with_pk, results in zip(chunk_with_pk, returned_columns)\<close>: the loop stops at
  the shorter of the two lists.
\<close>

fun write_back_with_pk ::
  "'db queryset \<Rightarrow> nat list \<Rightarrow> pyval list list \<Rightarrow> entity list \<Rightarrow> entity list" where
  "write_back_with_pk self (r # rs) (results # rows) es =
     write_back_with_pk self rs rows (es[r := set_results_with_pk self results (es ! r)])"
| "write_back_with_pk self rs rows es = es"

text \<open>\<^verbatim>\<open>for obj_with_pk in chunk_with_pk\<close>: every object of the chunk is marked.\<close>

fun mark_chunk :: "'db queryset \<Rightarrow> nat list \<Rightarrow> entity list \<Rightarrow> entity list" where
  "mark_chunk self [] es = es"
| "mark_chunk self (r # rs) es = mark_chunk self rs (es[r := mark_saved self (es ! r)])"

text \<open>
  \<^verbatim>\<open>for obj_without_pk, results in zip(objs_without_pk, returned_columns)\<close>: an object is
  written and marked in the same iteration.
\<close>

fun write_back_without_pk ::
  "'db queryset \<Rightarrow> nat list \<Rightarrow> pyval list list \<Rightarrow> entity list \<Rightarrow> entity list" where
  "write_back_without_pk self (r # rs) (results # rows) es =
     write_back_without_pk self rs rows
       (es[r := mark_saved self (set_results_without_pk self results (es ! r))])"
| "write_back_without_pk self rs rows es = es"

section \<open>The bulk insert\<close>

text \<open>
  A call of \<^verbatim>\<open>self._batched_insert\<close> for the objects at the positions \<open>rs\<close>: the call is
  recorded, the database takes the executor's writes, the number of returned rows or the
  exception is noted, and the outcome is the returned rows or the exception.
\<close>

definition call_batched_insert ::
  "'db queryset \<Rightarrow> nat list \<Rightarrow> field list \<Rightarrow> nat option \<Rightarrow> OnConflict option
     \<Rightarrow> string list option \<Rightarrow> string list option \<Rightarrow> 'db state
     \<Rightarrow> (error + pyval list list) \<times> 'db state" where
  "call_batched_insert self rs flds batch_size on_conflict update_fields unique_fields s =
     (case batched_insert self (database s) (map (\<lambda>r. ents s ! r) rs) flds batch_size
             on_conflict update_fields unique_fields of
        (res, d) \<Rightarrow>
          (res, s\<lparr>database := d, trace := trace s @ [BatchedInsert rs flds batch_size],
                   returned := returned s @
                     (case res of Inl e \<Rightarrow> [] | Inr rows \<Rightarrow> [(rs, length rows)]),
                   raised := raised s @
                     (case res of Inl e \<Rightarrow> [(rs, e)] | Inr rows \<Rightarrow> [])\<rparr>))"

text \<open>The loop over the chunks of the objects with a key (lines 128 to 151).\<close>

fun insert_chunks_with_pk ::
  "'db queryset \<Rightarrow> nat \<Rightarrow> OnConflict option \<Rightarrow> string list option \<Rightarrow> string list option
     \<Rightarrow> nat list list \<Rightarrow> 'db state \<Rightarrow> error option \<times> 'db state" where
  "insert_chunks_with_pk self batch_size on_conflict update_fields unique_fields [] s = (None, s)"
| "insert_chunks_with_pk self batch_size on_conflict update_fields unique_fields (c # cs) s =
     (case call_batched_insert self c (concrete_fields self) (Some batch_size) on_conflict
             update_fields unique_fields s of
        (Inl e, s1) \<Rightarrow> (Some e, s1)
      | (Inr returned_columns, s1) \<Rightarrow>
          insert_chunks_with_pk self batch_size on_conflict update_fields unique_fields cs
            (s1\<lparr>ents := mark_chunk self c
                          (write_back_with_pk self c returned_columns (ents s1))\<rparr>))"

text \<open>
  The branch \<^verbatim>\<open>if objs_with_pk\<close>: \<^verbatim>\<open>range\<close> raises \<^verbatim>\<open>TypeError\<close> for the step \<^verbatim>\<open>None\<close> and
  \<^verbatim>\<open>ValueError\<close> for the step zero.
\<close>

definition insert_with_pk ::
  "'db queryset \<Rightarrow> nat option \<Rightarrow> OnConflict option \<Rightarrow> string list option
     \<Rightarrow> string list option \<Rightarrow> nat list \<Rightarrow> 'db state \<Rightarrow> error option \<times> 'db state" where
  "insert_with_pk self batch_size on_conflict update_fields unique_fields objs_with_pk s =
     (case batch_size of
        None \<Rightarrow> (Some TypeError, s)
      | Some n \<Rightarrow>
          if n = 0 then (Some ValueError, s)
          else insert_chunks_with_pk self n on_conflict update_fields unique_fields
                 (chunked n objs_with_pk) s)"

text \<open>The branch \<^verbatim>\<open>if objs_without_pk\<close> (lines 153 to 175).\<close>

definition insert_without_pk ::
  "'db queryset \<Rightarrow> nat option \<Rightarrow> OnConflict option \<Rightarrow> string list option
     \<Rightarrow> string list option \<Rightarrow> nat list \<Rightarrow> 'db state \<Rightarrow> error option \<times> 'db state" where
  "insert_without_pk self batch_size on_conflict update_fields unique_fields objs_without_pk s =
     (let flds = filter (\<lambda>f. \<not> is_auto_field f) (concrete_fields self) in
      case call_batched_insert self objs_without_pk flds batch_size on_conflict
             update_fields unique_fields s of
        (Inl e, s1) \<Rightarrow> (Some e, s1)
      | (Inr returned_columns, s1) \<Rightarrow>
          if can_return_rows_from_bulk_insert (connections self (db self)) \<and> on_conflict = None
             \<and> length returned_columns \<noteq> length objs_without_pk
          then (Some AssertionError, s1)
          else (None, s1\<lparr>ents := write_back_without_pk self objs_without_pk returned_columns
                                    (ents s1)\<rparr>))"

text \<open>The body of the \<^verbatim>\<open>with\<close> block (lines 125 to 175).\<close>

definition bulk_create_body ::
  "'db queryset \<Rightarrow> nat option \<Rightarrow> OnConflict option \<Rightarrow> string list option
     \<Rightarrow> string list option \<Rightarrow> 'db state \<Rightarrow> error option \<times> 'db state" where
  "bulk_create_body self batch_size on_conflict update_fields unique_fields s =
     (case partition_fn (\<lambda>r. pk (ents s ! r) = None) [0..<length (ents s)] of
        (objs_with_pk, objs_without_pk) \<Rightarrow>
          (case (if objs_with_pk \<noteq> []
                 then insert_with_pk self batch_size on_conflict update_fields unique_fields
                        objs_with_pk s
                 else (None, s)) of
             (Some e, s1) \<Rightarrow> (Some e, s1)
           | (None, s1) \<Rightarrow>
               if objs_without_pk \<noteq> []
               then insert_without_pk self batch_size on_conflict update_fields unique_fields
                      objs_without_pk s1
               else (None, s1)))"

text \<open>
  Modelled from the spec: the transaction manager \<^verbatim>\<open>transaction.atomic\<close> is not part of
  the source file. The spec describes an atomic scope as a unit of work whose writes
  commit together or not at all, left through its exit on success and on failure, and a
  failure as an error that passes on and rolls the transaction back. So the body runs
  between the entry and the exit; when it raises, the database is put back to the rows it
  had at the entry and the exception passes on. The objects in memory are not put back.
\<close>

definition atomic ::
  "string \<Rightarrow> bool \<Rightarrow> ('db state \<Rightarrow> error option \<times> 'db state) \<Rightarrow> 'db state
     \<Rightarrow> error option \<times> 'db state" where
  "atomic using savepoint body s =
     (case body (s\<lparr>trace := trace s @ [AtomicEnter using savepoint]\<rparr>) of
        (None, s1) \<Rightarrow> (None, s1\<lparr>trace := trace s1 @ [AtomicCommit]\<rparr>)
      | (Some e, s1) \<Rightarrow>
          (Some e, s1\<lparr>database := database s, trace := trace s1 @ [AtomicRollback]\<rparr>))"

text \<open>
  \<^verbatim>\<open>spanner_bulk_create\<close>. The caller's objects \<^verbatim>\<open>objs\<close> are \<open>ents s\<close>; the list that the
  code returns holds the same objects, so it is \<open>ents\<close> of the final state. The outcome
  is \<open>None\<close> for a return and \<open>Some e\<close> for the exception \<open>e\<close>. The batch size hint is
  checked and then replaced by the maximum number of query parameters of the default
  connection (line 122). The flag \<^verbatim>\<open>self._for_write\<close> is not read by this code and is left
  out.
\<close>

definition spanner_bulk_create ::
  "'db queryset \<Rightarrow> int option \<Rightarrow> bool \<Rightarrow> bool \<Rightarrow> string list option \<Rightarrow> string list option
     \<Rightarrow> 'db state \<Rightarrow> error option \<times> 'db state" where
  "spanner_bulk_create self batch_size ignore_conflicts update_conflicts update_fields
       unique_fields s =
     (if (case batch_size of None \<Rightarrow> False | Some b \<Rightarrow> b \<le> 0) then (Some ValueError, s)
      else if list_ex (\<lambda>parent. parent \<noteq> concrete_model self) (parent_concrete_models self)
        then (Some ValueError, s)
      else if ents s = [] then (None, s)
      else
        (case spanner_check_bulk_create_options self ignore_conflicts update_conflicts
                update_fields unique_fields of
           Inl e \<Rightarrow> (Some e, s)
         | Inr on_conflict \<Rightarrow>
             (case spanner_prepare_for_bulk_create self [0..<length (ents s)] s of
                (Some e, s1) \<Rightarrow> (Some e, s1)
              | (None, s1) \<Rightarrow>
                  atomic (db self) False
                    (bulk_create_body self (max_query_params (connection_db self)) on_conflict
                       update_fields unique_fields) s1)))"

text \<open>
  The two lists of line 125, as positions: the objects with a key and the objects
  without one.
\<close>

definition objs_with_pk_of :: "entity list \<Rightarrow> nat list" where
  "objs_with_pk_of es = fst (partition_fn (\<lambda>r. pk (es ! r) = None) [0..<length es])"

definition objs_without_pk_of :: "entity list \<Rightarrow> nat list" where
  "objs_without_pk_of es = snd (partition_fn (\<lambda>r. pk (es ! r) = None) [0..<length es])"

text \<open>
  The chunks of the objects with a key (lines 128 to 131) for the step \<^verbatim>\<open>batch_size\<close>, when
  the step is a number; and the fields of line 154.
\<close>

definition chunks_with_pk :: "nat option \<Rightarrow> nat list \<Rightarrow> nat list list" where
  "chunks_with_pk batch_size objs_with_pk =
     (case batch_size of None \<Rightarrow> [] | Some n \<Rightarrow> chunked n objs_with_pk)"

definition fields_without_auto :: "'db queryset \<Rightarrow> field list" where
  "fields_without_auto self = filter (\<lambda>f. \<not> is_auto_field f) (concrete_fields self)"

text \<open>
  The spec's "restored to original positions": the two groups are put back by the flags
  of the original list (true for an item of the second group). This definition follows
  the spec's words and is not part of the code.
\<close>

fun restore :: "bool list \<Rightarrow> 'a list \<Rightarrow> 'a list \<Rightarrow> 'a list" where
  "restore [] ws wos = []"
| "restore (True # flags) ws (x # wos) = x # restore flags ws wos"
| "restore (False # flags) (x # ws) wos = x # restore flags ws wos"
| "restore (flag # flags) ws wos = []"

text \<open>
  The calls of the executor that the body of the \<^verbatim>\<open>with\<close> block makes when nothing raises,
  in order: one for every chunk of the objects with a key, then one for all the objects
  without a key.
\<close>

definition planned_inserts :: "'db queryset \<Rightarrow> nat option \<Rightarrow> entity list \<Rightarrow> event list" where
  "planned_inserts self batch_size es =
     map (\<lambda>c. BatchedInsert c (concrete_fields self) batch_size)
       (chunks_with_pk batch_size (objs_with_pk_of es)) @
     (if objs_without_pk_of es = [] then []
      else [BatchedInsert (objs_without_pk_of es) (fields_without_auto self) batch_size])"

text \<open>The batches of the executor calls of a trace, in order.\<close>

fun insert_batches :: "event list \<Rightarrow> nat list list" where
  "insert_batches [] = []"
| "insert_batches (BatchedInsert c flds n # tr) = c # insert_batches tr"
| "insert_batches (e # tr) = insert_batches tr"


text \<open>
  Concrete model data for the examples: a model with an automatic key field, a name
  field and a many-to-many relation, a backend, new objects, and executors that store
  the keys of the rows they get.
\<close>

definition id_field :: field where
  "id_field = \<lparr>attname = ''id'', concrete = True, many_to_many = False, primary_key = True,
                is_auto_field = True\<rparr>"

definition name_field :: field where
  "name_field = \<lparr>attname = ''name'', concrete = True, many_to_many = False,
                  primary_key = False, is_auto_field = False\<rparr>"

definition tags_field :: field where
  "tags_field = \<lparr>attname = ''tags'', concrete = False, many_to_many = True,
                  primary_key = False, is_auto_field = False\<rparr>"

definition example_get_field :: "string \<Rightarrow> error + field" where
  "example_get_field n =
     (if n = ''id'' then Inr id_field
      else if n = ''name'' then Inr name_field
      else if n = ''tags'' then Inr tags_field
      else Inl FieldDoesNotExist)"

definition example_features :: "bool \<Rightarrow> bool \<Rightarrow> nat option \<Rightarrow> features" where
  "example_features upsert ret n =
     \<lparr>supports_ignore_conflicts = False, supports_update_conflicts = upsert,
      supports_update_conflicts_with_target = upsert,
      can_return_rows_from_bulk_insert = ret, max_query_params = n\<rparr>"

definition example_queryset ::
  "features \<Rightarrow> (nat \<Rightarrow> entity \<Rightarrow> pyval)
     \<Rightarrow> (pyval list \<Rightarrow> entity list \<Rightarrow> (error + pyval list list) \<times> pyval list)
     \<Rightarrow> (pyval list) queryset" where
  "example_queryset feats gen exec =
     \<lparr>db = ''default'', concrete_model = ''Author'', parent_concrete_models = [],
      concrete_fields = [id_field, name_field], opts_pk = id_field, db_returning_fields = [],
      get_field = example_get_field,
      connections = (\<lambda>alias. feats), connection_db = feats,
      get_pk_value_on_save = gen,
      prepare_related_fields_for_save = (\<lambda>obj. None),
      batched_insert = (\<lambda>d objs flds n oc uf qf. exec d objs)\<rparr>"

definition new_obj :: "pyval \<Rightarrow> entity" where
  "new_obj k = \<lparr>pk = k, attrs = (\<lambda>a. None), adding = True, state_db = None\<rparr>"

definition start :: "entity list \<Rightarrow> (pyval list) state" where
  "start es = \<lparr>ents = es, database = [], trace = [], returned = [], raised = []\<rparr>"

text \<open>An executor that stores the keys and returns no rows.\<close>

definition exec_store :: "pyval list \<Rightarrow> entity list \<Rightarrow> (error + pyval list list) \<times> pyval list" where
  "exec_store d objs = (Inr [], d @ map pk objs)"

text \<open>An executor that stores the keys and raises when the batch holds the key 13.\<close>

definition exec_fail13 :: "pyval list \<Rightarrow> entity list \<Rightarrow> (error + pyval list list) \<times> pyval list" where
  "exec_fail13 d objs =
     (if Some (VInt 13) \<in> set (map pk objs) then (Inl DatabaseError, d @ map pk objs)
      else (Inr [], d @ map pk objs))"

text \<open>An executor that stores the keys and returns one row, whatever the batch.\<close>

definition exec_one_row :: "pyval list \<Rightarrow> entity list \<Rightarrow> (error + pyval list list) \<times> pyval list" where
  "exec_one_row d objs = (Inr [[]], d @ map pk objs)"

section \<open>Partition and chunks\<close>

declare range_from.simps [simp del]

lemma partition_fn_fold:
  "fold (\<lambda>item (fs, ts). if p item then (fs, ts @ [item]) else (fs @ [item], ts)) xs (a, b)
     = (a @ filter (\<lambda>x. \<not> p x) xs, b @ filter p xs)"
  by (induction xs arbitrary: a b) auto

lemma partition_fn_filter:
  "partition_fn p xs = (filter (\<lambda>x. \<not> p x) xs, filter p xs)"
  by (simp add: partition_fn_def partition_fn_fold)

lemma range_from_bounds:
  "y \<in> set (range_from x stop n) \<Longrightarrow> x \<le> y \<and> y < stop"
proof (induction x stop n rule: range_from.induct)
  case (1 x stop step)
  then show ?case
    by (subst (asm) range_from.simps) (auto split: if_splits)
qed

lemma concat_slices:
  "0 < n \<Longrightarrow> stop = length xs \<Longrightarrow>
     concat (map (\<lambda>y. slice xs y n) (range_from x stop n)) = drop x xs"
proof (induction x stop n rule: range_from.induct)
  case (1 x stop step)
  show ?case
  proof (cases "stop \<le> x")
    case True
    with 1 show ?thesis by (subst range_from.simps) simp
  next
    case False
    have "take step (drop x xs) @ drop (step + x) xs = drop x xs"
      using append_take_drop_id [of step "drop x xs"] by simp
    with False 1 show ?thesis
      by (subst range_from.simps) (simp add: slice_def add.commute)
  qed
qed

lemma concat_chunked: "0 < n \<Longrightarrow> concat (chunked n xs) = xs"
  by (simp add: chunked_def concat_slices)

lemma chunked_sizes:
  assumes "c \<in> set (chunked n xs)"
  shows "c \<noteq> [] \<and> length c \<le> n"
proof -
  from assms obtain y where y: "y \<in> set (range_from 0 (length xs) n)" and c: "c = slice xs y n"
    by (auto simp: chunked_def)
  from y have "y < length xs" using range_from_bounds by blast
  moreover from y have "0 < n" by (subst (asm) range_from.simps) (auto split: if_splits)
  ultimately show ?thesis using c by (simp add: slice_def)
qed

lemma chunked_Nil: "chunked n [] = []"
  by (simp add: chunked_def range_from.simps)

section \<open>The key assigner keeps what it does not assign\<close>

lemma assign_pk_length: "length (ents (assign_pk self r s)) = length (ents s)"
  by (simp add: assign_pk_def)

lemma assign_pk_database: "database (assign_pk self r s) = database s"
  by (simp add: assign_pk_def)

lemma assign_pk_other: "i \<noteq> r \<Longrightarrow> ents (assign_pk self r s) ! i = ents s ! i"
  by (simp add: assign_pk_def)

lemma assign_pk_flags:
  "adding (ents (assign_pk self r s) ! i) = adding (ents s ! i) \<and>
   state_db (ents (assign_pk self r s) ! i) = state_db (ents s ! i)"
  by (cases "i = r"; cases "r < length (ents s)") (simp_all add: assign_pk_def list_update_beyond)

lemma assign_pk_at:
  "r < length (ents s) \<Longrightarrow>
     pk (ents (assign_pk self r s) ! r) =
       (if pk (ents s ! r) = None then get_pk_value_on_save self r (ents s ! r)
        else pk (ents s ! r))"
  by (simp add: assign_pk_def)

lemma assign_pk_trace:
  "trace (assign_pk self r s) =
     trace s @ (if pk (ents s ! r) = None then [GetPkValueOnSave r] else [])"
  by (simp add: assign_pk_def)

lemma prepare_length:
  "spanner_prepare_for_bulk_create self rs s = (res, s1) \<Longrightarrow>
     length (ents s1) = length (ents s)"
  by (induction rs arbitrary: s)
     (auto simp: Let_def assign_pk_length split: option.splits)

lemma prepare_database:
  "spanner_prepare_for_bulk_create self rs s = (res, s1) \<Longrightarrow> database s1 = database s"
  by (induction rs arbitrary: s)
     (auto simp: Let_def assign_pk_database split: option.splits)

lemma prepare_other:
  "spanner_prepare_for_bulk_create self rs s = (res, s1) \<Longrightarrow> i \<notin> set rs \<Longrightarrow>
     ents s1 ! i = ents s ! i"
  by (induction rs arbitrary: s)
     (auto simp: Let_def assign_pk_other split: option.splits)

lemma prepare_flags:
  "spanner_prepare_for_bulk_create self rs s = (res, s1) \<Longrightarrow>
     adding (ents s1 ! i) = adding (ents s ! i) \<and> state_db (ents s1 ! i) = state_db (ents s ! i)"
  by (induction rs arbitrary: s)
     (auto simp: Let_def assign_pk_flags split: option.splits)

lemma prepare_pk:
  "spanner_prepare_for_bulk_create self rs s = (None, s1) \<Longrightarrow> distinct rs \<Longrightarrow>
   i \<in> set rs \<Longrightarrow> i < length (ents s) \<Longrightarrow>
     pk (ents s1 ! i) =
       (if pk (ents s ! i) = None then get_pk_value_on_save self i (ents s ! i)
        else pk (ents s ! i))"
proof (induction rs arbitrary: s)
  case Nil
  then show ?case by simp
next
  case (Cons r rs)
  let ?s = "assign_pk self r s"
  from Cons.prems(1) have rest: "spanner_prepare_for_bulk_create self rs ?s = (None, s1)"
    by (auto simp: Let_def split: option.splits)
  show ?case
  proof (cases "i = r")
    case True
    with Cons.prems(2) have "i \<notin> set rs" by simp
    with rest have "ents s1 ! i = ents ?s ! i" by (rule prepare_other)
    with True Cons.prems(4) show ?thesis by (simp add: assign_pk_at)
  next
    case False
    with Cons.prems have "i \<in> set rs" "distinct rs" "i < length (ents ?s)"
      by (simp_all add: assign_pk_length)
    with rest Cons.IH [of ?s] False show ?thesis by (simp add: assign_pk_other)
  qed
qed

lemma prepare_trace:
  "spanner_prepare_for_bulk_create self rs s = (None, s1) \<Longrightarrow> distinct rs \<Longrightarrow>
     trace s1 = trace s @ map GetPkValueOnSave (filter (\<lambda>r. pk (ents s ! r) = None) rs)"
proof (induction rs arbitrary: s)
  case Nil
  then show ?case by simp
next
  case (Cons r rs)
  let ?s = "assign_pk self r s"
  from Cons.prems(1) have rest: "spanner_prepare_for_bulk_create self rs ?s = (None, s1)"
    by (auto simp: Let_def split: option.splits)
  from Cons.prems(2) have "\<forall>x\<in>set rs. ents ?s ! x = ents s ! x"
    by (metis assign_pk_other distinct.simps(2))
  then have "filter (\<lambda>x. pk (ents ?s ! x) = None) rs = filter (\<lambda>x. pk (ents s ! x) = None) rs"
    by (auto intro: filter_cong)
  with Cons.IH [OF rest] Cons.prems(2) show ?case
    by (simp add: assign_pk_trace)
qed

section \<open>The write-back keeps keys and marks objects\<close>

lemma setattr_field_flags:
  "adding (setattr_field self ob f v) = adding ob \<and>
   state_db (setattr_field self ob f v) = state_db ob"
  by (simp add: setattr_field_def)

lemma setattr_field_pk: "f \<noteq> opts_pk self \<Longrightarrow> pk (setattr_field self ob f v) = pk ob"
  by (simp add: setattr_field_def)

lemma fold_with_pk_keeps:
  "pk (fold (\<lambda>(result, f) ob. if f \<noteq> opts_pk self then setattr_field self ob f result else ob)
         zs ob) = pk ob \<and>
   adding (fold (\<lambda>(result, f) ob. if f \<noteq> opts_pk self then setattr_field self ob f result else ob)
         zs ob) = adding ob \<and>
   state_db (fold (\<lambda>(result, f) ob. if f \<noteq> opts_pk self then setattr_field self ob f result else ob)
         zs ob) = state_db ob"
proof (induction zs arbitrary: ob)
  case Nil
  show ?case by simp
next
  case (Cons z zs)
  obtain result f where z: "z = (result, f)" by (cases z)
  show ?case
  proof (cases "f = opts_pk self")
    case True
    with z Cons.IH [of ob] show ?thesis by simp
  next
    case False
    with z Cons.IH [of "setattr_field self ob f result"] show ?thesis
      by (simp add: setattr_field_flags setattr_field_pk)
  qed
qed

lemma fold_without_pk_flags:
  "adding (fold (\<lambda>(result, f) ob. setattr_field self ob f result) zs ob) = adding ob \<and>
   state_db (fold (\<lambda>(result, f) ob. setattr_field self ob f result) zs ob) = state_db ob"
proof (induction zs arbitrary: ob)
  case Nil
  show ?case by simp
next
  case (Cons z zs)
  obtain result f where z: "z = (result, f)" by (cases z)
  with Cons.IH [of "setattr_field self ob f result"] show ?case
    by (simp add: setattr_field_flags)
qed

lemma set_results_with_pk_keeps:
  "pk (set_results_with_pk self results ob) = pk ob \<and>
   adding (set_results_with_pk self results ob) = adding ob \<and>
   state_db (set_results_with_pk self results ob) = state_db ob"
  unfolding set_results_with_pk_def by (rule fold_with_pk_keeps)

lemma set_results_without_pk_flags:
  "adding (set_results_without_pk self results ob) = adding ob \<and>
   state_db (set_results_without_pk self results ob) = state_db ob"
  unfolding set_results_without_pk_def by (rule fold_without_pk_flags)

lemma write_back_with_pk_length:
  "length (write_back_with_pk self rs rows es) = length es"
  by (induction self rs rows es rule: write_back_with_pk.induct) simp_all

lemma nth_update_keeps:
  assumes "P (v :: 'a) = P (es ! r)"
  shows "P (es[r := v] ! i) = P (es ! i)"
proof (cases "i = r \<and> r < length es")
  case True
  with assms show ?thesis by simp
next
  case False
  then show ?thesis by (cases "i = r") (simp_all add: list_update_beyond)
qed

lemma write_back_with_pk_keeps:
  "pk (write_back_with_pk self rs rows es ! i) = pk (es ! i) \<and>
   adding (write_back_with_pk self rs rows es ! i) = adding (es ! i) \<and>
   state_db (write_back_with_pk self rs rows es ! i) = state_db (es ! i)"
proof (induction self rs rows es rule: write_back_with_pk.induct)
  case (1 self r rs results rows es)
  let ?v = "set_results_with_pk self results (es ! r)"
  have "pk (es[r := ?v] ! i) = pk (es ! i)"
    by (rule nth_update_keeps) (simp add: set_results_with_pk_keeps)
  moreover have "adding (es[r := ?v] ! i) = adding (es ! i)"
    by (rule nth_update_keeps) (simp add: set_results_with_pk_keeps)
  moreover have "state_db (es[r := ?v] ! i) = state_db (es ! i)"
    by (rule nth_update_keeps) (simp add: set_results_with_pk_keeps)
  ultimately show ?case using 1 by simp
qed simp_all

lemma mark_chunk_length: "length (mark_chunk self c es) = length es"
  by (induction c arbitrary: es) simp_all

lemma mark_chunk_pk: "pk (mark_chunk self c es ! i) = pk (es ! i)"
proof (induction c arbitrary: es)
  case Nil
  then show ?case by simp
next
  case (Cons r c)
  have "pk (es[r := mark_saved self (es ! r)] ! i) = pk (es ! i)"
    by (rule nth_update_keeps) (simp add: mark_saved_def)
  with Cons show ?case by simp
qed

lemma mark_chunk_marked:
  "i < length es \<Longrightarrow> i \<in> set c \<or> (\<not> adding (es ! i) \<and> state_db (es ! i) = Some (db self)) \<Longrightarrow>
     \<not> adding (mark_chunk self c es ! i) \<and> state_db (mark_chunk self c es ! i) = Some (db self)"
proof (induction c arbitrary: es)
  case Nil
  then show ?case by simp
next
  case (Cons r c)
  let ?es = "es[r := mark_saved self (es ! r)]"
  have "\<not> adding (?es ! i) \<and> state_db (?es ! i) = Some (db self)" if "i = r"
    using that Cons.prems(1) by (simp add: mark_saved_def)
  moreover have "?es ! i = es ! i" if "i \<noteq> r"
    using that by simp
  ultimately have "i \<in> set c \<or> (\<not> adding (?es ! i) \<and> state_db (?es ! i) = Some (db self))"
    using Cons.prems(2) by (cases "i = r") auto
  moreover have "i < length ?es" using Cons.prems(1) by simp
  ultimately show ?case using Cons.IH [of ?es] by simp
qed

lemma mark_chunk_other: "i \<notin> set c \<Longrightarrow> mark_chunk self c es ! i = es ! i"
  by (induction c arbitrary: es) auto

lemma call_batched_insert_ents:
  "call_batched_insert self rs flds n oc uf qf s = (res, s1) \<Longrightarrow> ents s1 = ents s"
  by (auto simp: call_batched_insert_def split: prod.splits)

lemma call_batched_insert_trace:
  "call_batched_insert self rs flds n oc uf qf s = (res, s1) \<Longrightarrow>
     trace s1 = trace s @ [BatchedInsert rs flds n]"
  by (auto simp: call_batched_insert_def split: prod.splits)

section \<open>The loop over the chunks\<close>

lemma call_batched_insert_returned_ok:
  "call_batched_insert self rs flds n oc uf qf s = (Inr rows, s1) \<Longrightarrow>
     returned s1 = returned s @ [(rs, length rows)]"
  by (auto simp: call_batched_insert_def split: prod.splits)

lemma call_batched_insert_returned_err:
  "call_batched_insert self rs flds n oc uf qf s = (Inl e, s1) \<Longrightarrow> returned s1 = returned s"
  by (auto simp: call_batched_insert_def split: prod.splits)

lemma icw_step:
  assumes "insert_chunks_with_pk self n oc uf qf (c # cs) s = (res, s')"
  obtains e s1 where "call_batched_insert self c (concrete_fields self) (Some n) oc uf qf s = (Inl e, s1)"
      "res = Some e" "s' = s1"
  | rows s1 where "call_batched_insert self c (concrete_fields self) (Some n) oc uf qf s = (Inr rows, s1)"
      "insert_chunks_with_pk self n oc uf qf cs
         (s1\<lparr>ents := mark_chunk self c (write_back_with_pk self c rows (ents s1))\<rparr>) = (res, s')"
  using assms by (auto split: prod.splits sum.splits)

lemma icw_length:
  "insert_chunks_with_pk self n oc uf qf cs s = (res, s') \<Longrightarrow> length (ents s') = length (ents s)"
proof (induction cs arbitrary: s)
  case Nil
  then show ?case by simp
next
  case (Cons c cs)
  from Cons.prems show ?case
  proof (cases rule: icw_step)
    case (1 e s1)
    then show ?thesis by (simp add: call_batched_insert_ents)
  next
    case (2 rows s1)
    from Cons.IH [OF 2(2)] 2(1) show ?thesis
      by (simp add: mark_chunk_length write_back_with_pk_length call_batched_insert_ents)
  qed
qed

lemma icw_pk:
  "insert_chunks_with_pk self n oc uf qf cs s = (res, s') \<Longrightarrow> pk (ents s' ! i) = pk (ents s ! i)"
proof (induction cs arbitrary: s)
  case Nil
  then show ?case by simp
next
  case (Cons c cs)
  from Cons.prems show ?case
  proof (cases rule: icw_step)
    case (1 e s1)
    then show ?thesis by (simp add: call_batched_insert_ents)
  next
    case (2 rows s1)
    from Cons.IH [OF 2(2)] 2(1) show ?thesis
      by (simp add: mark_chunk_pk write_back_with_pk_keeps call_batched_insert_ents)
  qed
qed

lemma icw_marked:
  "insert_chunks_with_pk self n oc uf qf cs s = (None, s') \<Longrightarrow> i < length (ents s) \<Longrightarrow>
   i \<in> \<Union> (set ` set cs) \<or> (\<not> adding (ents s ! i) \<and> state_db (ents s ! i) = Some (db self)) \<Longrightarrow>
     \<not> adding (ents s' ! i) \<and> state_db (ents s' ! i) = Some (db self)"
proof (induction cs arbitrary: s)
  case Nil
  then show ?case by simp
next
  case (Cons c cs)
  from Cons.prems(1) show ?case
  proof (cases rule: icw_step)
    case (1 e s1)
    then show ?thesis by simp
  next
    case (2 rows s1)
    let ?wb = "write_back_with_pk self c rows (ents s1)"
    let ?s2 = "s1\<lparr>ents := mark_chunk self c ?wb\<rparr>"
    have es: "ents s1 = ents s" using 2(1) by (rule call_batched_insert_ents)
    have len: "i < length ?wb" using Cons.prems(2) es by (simp add: write_back_with_pk_length)
    have "i \<in> set c \<or> (\<not> adding (?wb ! i) \<and> state_db (?wb ! i) = Some (db self))
            \<or> i \<in> \<Union> (set ` set cs)"
      using Cons.prems(3) es by (auto simp: write_back_with_pk_keeps)
    then have "i \<in> \<Union> (set ` set cs) \<or>
        (\<not> adding (ents ?s2 ! i) \<and> state_db (ents ?s2 ! i) = Some (db self))"
      using mark_chunk_marked [OF len, of c self] by auto
    moreover have "i < length (ents ?s2)"
      using len by (simp add: mark_chunk_length)
    ultimately show ?thesis using Cons.IH [OF 2(2)] by blast
  qed
qed

lemma icw_trace:
  "insert_chunks_with_pk self n oc uf qf cs s = (None, s') \<Longrightarrow>
     trace s' = trace s @ map (\<lambda>c. BatchedInsert c (concrete_fields self) (Some n)) cs"
proof (induction cs arbitrary: s)
  case Nil
  then show ?case by simp
next
  case (Cons c cs)
  from Cons.prems(1) show ?case
  proof (cases rule: icw_step)
    case (1 e s1)
    then show ?thesis by simp
  next
    case (2 rows s1)
    from Cons.IH [OF 2(2)] call_batched_insert_trace [OF 2(1)] show ?thesis by simp
  qed
qed

section \<open>The branches and the cases of a call\<close>

lemma objs_with_pk_of_filter:
  "objs_with_pk_of es = filter (\<lambda>r. pk (es ! r) \<noteq> None) [0..<length es]"
  by (simp add: objs_with_pk_of_def partition_fn_filter)

lemma objs_without_pk_of_filter:
  "objs_without_pk_of es = filter (\<lambda>r. pk (es ! r) = None) [0..<length es]"
  by (simp add: objs_without_pk_of_def partition_fn_filter)

lemma partition_positions:
  "partition_fn (\<lambda>r. pk (es ! r) = None) [0..<length es] = (objs_with_pk_of es, objs_without_pk_of es)"
  by (simp add: objs_with_pk_of_def objs_without_pk_of_def)

lemma iwp_ok:
  assumes "insert_with_pk self N oc uf qf W s = (None, s')"
  obtains n where "N = Some n" "0 < n"
    "insert_chunks_with_pk self n oc uf qf (chunked n W) s = (None, s')"
  using assms by (auto simp: insert_with_pk_def split: option.splits if_splits)

lemma iwp_length:
  "insert_with_pk self N oc uf qf W s = (res, s') \<Longrightarrow> length (ents s') = length (ents s)"
  by (auto simp: insert_with_pk_def icw_length split: option.splits if_splits)

lemma iwp_pk:
  "insert_with_pk self N oc uf qf W s = (res, s') \<Longrightarrow> pk (ents s' ! i) = pk (ents s ! i)"
  by (auto simp: insert_with_pk_def icw_pk split: option.splits if_splits)

lemma iwp_marked:
  assumes "insert_with_pk self N oc uf qf W s = (None, s')" "i < length (ents s)" "i \<in> set W"
  shows "\<not> adding (ents s' ! i) \<and> state_db (ents s' ! i) = Some (db self)"
proof -
  from assms(1) obtain n where n: "0 < n"
    "insert_chunks_with_pk self n oc uf qf (chunked n W) s = (None, s')"
    by (rule iwp_ok)
  from n(1) have "concat (chunked n W) = W" by (rule concat_chunked)
  then have "\<Union> (set ` set (chunked n W)) = set W"
    by (metis set_concat)
  with assms(3) have "i \<in> \<Union> (set ` set (chunked n W))" by simp
  with icw_marked [OF n(2) assms(2)] show ?thesis by blast
qed

lemma iwp_trace:
  assumes "insert_with_pk self N oc uf qf W s = (None, s')"
  shows "\<exists>n. N = Some n \<and> 0 < n \<and>
     trace s' = trace s @ map (\<lambda>c. BatchedInsert c (concrete_fields self) N) (chunked n W)"
proof -
  from assms obtain n where n: "N = Some n" "0 < n"
    "insert_chunks_with_pk self n oc uf qf (chunked n W) s = (None, s')"
    by (rule iwp_ok)
  from icw_trace [OF n(3)] n(1,2) show ?thesis by simp
qed

lemma body_cases:
  assumes "bulk_create_body self N oc uf qf s = (res, s')"
  obtains
    (with_fail) e where "objs_with_pk_of (ents s) \<noteq> []"
      "insert_with_pk self N oc uf qf (objs_with_pk_of (ents s)) s = (Some e, s')" "res = Some e"
  | (no_without) s1 where
      "(if objs_with_pk_of (ents s) \<noteq> []
        then insert_with_pk self N oc uf qf (objs_with_pk_of (ents s)) s else (None, s)) = (None, s1)"
      "objs_without_pk_of (ents s) = []" "res = None" "s' = s1"
  | (without) s1 where
      "(if objs_with_pk_of (ents s) \<noteq> []
        then insert_with_pk self N oc uf qf (objs_with_pk_of (ents s)) s else (None, s)) = (None, s1)"
      "objs_without_pk_of (ents s) \<noteq> []"
      "insert_without_pk self N oc uf qf (objs_without_pk_of (ents s)) s1 = (res, s')"
  using assms unfolding bulk_create_body_def partition_positions
  by (auto split: prod.splits option.splits if_splits)

lemma atomic_cases:
  assumes "atomic u sp body s = (res, s')"
  obtains
    (commit) s2 where "body (s\<lparr>trace := trace s @ [AtomicEnter u sp]\<rparr>) = (None, s2)"
      "res = None" "s' = s2\<lparr>trace := trace s2 @ [AtomicCommit]\<rparr>"
  | (rollback) e s2 where "body (s\<lparr>trace := trace s @ [AtomicEnter u sp]\<rparr>) = (Some e, s2)"
      "res = Some e" "s' = s2\<lparr>database := database s, trace := trace s2 @ [AtomicRollback]\<rparr>"
  using assms unfolding atomic_def by (auto split: prod.splits option.splits)

lemma bulk_create_cases:
  assumes "spanner_bulk_create self bs ic uc uf qf s = (res, s')"
  obtains
    (invalid) "res = Some ValueError" "s' = s"
  | (empty) "ents s = []" "res = None" "s' = s"
  | (options) e where "spanner_check_bulk_create_options self ic uc uf qf = Inl e"
      "res = Some e" "s' = s"
  | (prepare) oc e where "ents s \<noteq> []"
      "spanner_check_bulk_create_options self ic uc uf qf = Inr oc"
      "spanner_prepare_for_bulk_create self [0..<length (ents s)] s = (Some e, s')" "res = Some e"
  | (scope) oc s1 where "ents s \<noteq> []"
      "spanner_check_bulk_create_options self ic uc uf qf = Inr oc"
      "spanner_prepare_for_bulk_create self [0..<length (ents s)] s = (None, s1)"
      "atomic (db self) False
         (bulk_create_body self (max_query_params (connection_db self)) oc uf qf) s1 = (res, s')"
proof (cases "(case bs of None \<Rightarrow> False | Some b \<Rightarrow> b \<le> 0) \<or>
               list_ex (\<lambda>parent. parent \<noteq> concrete_model self) (parent_concrete_models self)")
  case True
  with assms have "res = Some ValueError \<and> s' = s"
    unfolding spanner_bulk_create_def by (simp split: if_splits)
  then show ?thesis using invalid by simp
next
  case valid: False
  show ?thesis
  proof (cases "ents s = []")
    case True
    with valid assms have "res = None \<and> s' = s"
      unfolding spanner_bulk_create_def by simp
    with True show ?thesis using empty by simp
  next
    case nonempty: False
    show ?thesis
    proof (cases "spanner_check_bulk_create_options self ic uc uf qf")
      case (Inl e)
      with valid nonempty assms have "res = Some e \<and> s' = s"
        unfolding spanner_bulk_create_def by simp
      with Inl show ?thesis using options by simp
    next
      case (Inr oc)
      obtain r1 s1 where p: "spanner_prepare_for_bulk_create self [0..<length (ents s)] s = (r1, s1)"
        by (cases "spanner_prepare_for_bulk_create self [0..<length (ents s)] s")
      show ?thesis
      proof (cases r1)
        case None
        with valid nonempty Inr p assms have
          "atomic (db self) False
             (bulk_create_body self (max_query_params (connection_db self)) oc uf qf) s1 = (res, s')"
          unfolding spanner_bulk_create_def by simp
        with nonempty Inr p None show ?thesis using scope by simp
      next
        case (Some e)
        with valid nonempty Inr p assms have "res = Some e \<and> s' = s1"
          unfolding spanner_bulk_create_def by simp
        with nonempty Inr p Some show ?thesis using prepare by simp
      qed
    qed
  qed
qed

lemma positions_all_keyed:
  assumes "\<forall>i<length es. pk (es ! i) \<noteq> None"
  shows "objs_with_pk_of es = [0..<length es]" "objs_without_pk_of es = []"
  using assms by (auto simp: objs_with_pk_of_filter objs_without_pk_of_filter filter_empty_conv)

lemma body_all_keyed:
  assumes body: "bulk_create_body self N oc uf qf s = (None, s')"
    and keyed: "\<forall>i<length (ents s). pk (ents s ! i) \<noteq> None"
    and i: "i < length (ents s)"
  shows "length (ents s') = length (ents s) \<and> pk (ents s' ! i) = pk (ents s ! i) \<and>
         \<not> adding (ents s' ! i) \<and> state_db (ents s' ! i) = Some (db self)"
proof -
  note pos = positions_all_keyed [OF keyed]
  from i have ne: "[0..<length (ents s)] \<noteq> []" by auto
  from body show ?thesis
  proof (cases rule: body_cases)
    case (no_without s1)
    with pos ne have iw: "insert_with_pk self N oc uf qf [0..<length (ents s)] s = (None, s')"
      by simp
    from i have "i \<in> set [0..<length (ents s)]" by simp
    with iwp_marked [OF iw i] iwp_pk [OF iw] iwp_length [OF iw]
    show ?thesis by simp
  next
    case (without s1)
    with pos show ?thesis by simp
  qed simp
qed


lemma iwo_cases:
  assumes "insert_without_pk self N oc uf qf WO s = (res, s')"
  obtains
    (raise) e where
      "call_batched_insert self WO (fields_without_auto self) N oc uf qf s = (Inl e, s')"
      "res = Some e"
  | (mismatch) rows where
      "call_batched_insert self WO (fields_without_auto self) N oc uf qf s = (Inr rows, s')"
      "can_return_rows_from_bulk_insert (connections self (db self))" "oc = None"
      "length rows \<noteq> length WO" "res = Some AssertionError"
  | (ok) rows s1 where
      "call_batched_insert self WO (fields_without_auto self) N oc uf qf s = (Inr rows, s1)"
      "\<not> (can_return_rows_from_bulk_insert (connections self (db self)) \<and> oc = None \<and>
          length rows \<noteq> length WO)"
      "res = None" "s' = s1\<lparr>ents := write_back_without_pk self WO rows (ents s1)\<rparr>"
proof -
  obtain r s1 where c: "call_batched_insert self WO (fields_without_auto self) N oc uf qf s = (r, s1)"
    by (cases "call_batched_insert self WO (fields_without_auto self) N oc uf qf s")
  show ?thesis
  proof (cases r)
    case (Inl e)
    with c assms have "res = Some e \<and> s' = s1"
      by (simp add: insert_without_pk_def fields_without_auto_def)
    with c Inl show ?thesis using raise by simp
  next
    case (Inr rows)
    show ?thesis
    proof (cases "can_return_rows_from_bulk_insert (connections self (db self)) \<and> oc = None \<and>
          length rows \<noteq> length WO")
      case True
      with c Inr assms have "res = Some AssertionError \<and> s' = s1"
        by (simp add: insert_without_pk_def fields_without_auto_def)
      with c Inr True show ?thesis using mismatch by simp
    next
      case False
      with c Inr assms have "res = None \<and> s' = s1\<lparr>ents := write_back_without_pk self WO rows (ents s1)\<rparr>"
        by (auto simp: insert_without_pk_def fields_without_auto_def)
      with c Inr False show ?thesis using ok by simp
    qed
  qed
qed

lemma iwo_trace:
  assumes "insert_without_pk self N oc uf qf WO s = (res, s')"
  shows "trace s' = trace s @ [BatchedInsert WO (fields_without_auto self) N]"
  using assms by (cases rule: iwo_cases) (auto dest: call_batched_insert_trace)

lemma body_trace_ok:
  assumes "bulk_create_body self N oc uf qf s = (None, s')"
  shows "trace s' = trace s @
     map (\<lambda>c. BatchedInsert c (concrete_fields self) N)
       (chunks_with_pk N (objs_with_pk_of (ents s))) @
     (if objs_without_pk_of (ents s) = [] then []
      else [BatchedInsert (objs_without_pk_of (ents s)) (fields_without_auto self) N])"
proof -
  let ?W = "objs_with_pk_of (ents s)"
  have with_part: "trace s1 = trace s @
      map (\<lambda>c. BatchedInsert c (concrete_fields self) N) (chunks_with_pk N ?W)"
    if "(if ?W \<noteq> [] then insert_with_pk self N oc uf qf ?W s else (None, s)) = (None, s1)"
    for s1
  proof (cases "?W = []")
    case True
    with that show ?thesis
      by (simp add: chunks_with_pk_def chunked_Nil split: option.splits)
  next
    case False
    with that have "insert_with_pk self N oc uf qf ?W s = (None, s1)" by simp
    from iwp_trace [OF this] show ?thesis by (auto simp: chunks_with_pk_def)
  qed
  from assms show ?thesis
  proof (cases rule: body_cases)
    case (no_without s1)
    with with_part [OF no_without(1)] show ?thesis by simp
  next
    case (without s1)
    with with_part [OF without(1)] iwo_trace [OF without(3)] show ?thesis by simp
  qed simp
qed


lemma success_trace:
  assumes call: "spanner_bulk_create self bs ic uc uf qf s = (None, s')"
    and nonempty: "ents s \<noteq> []"
    and s1: "s1 = snd (spanner_prepare_for_bulk_create self [0..<length (ents s)] s)"
    and N: "N = max_query_params (connection_db self)"
  shows "trace s' = trace s @
     map GetPkValueOnSave (objs_without_pk_of (ents s)) @
     [AtomicEnter (db self) False] @
     map (\<lambda>c. BatchedInsert c (concrete_fields self) N)
       (chunks_with_pk N (objs_with_pk_of (ents s1))) @
     (if objs_without_pk_of (ents s1) = [] then []
      else [BatchedInsert (objs_without_pk_of (ents s1)) (fields_without_auto self) N]) @
     [AtomicCommit]"
  using call
proof (cases rule: bulk_create_cases)
  case empty
  with nonempty show ?thesis by simp
next
  case (scope oc s1')
  with s1 have eq: "s1' = s1" by simp
  have tr1: "trace s1 = trace s @ map GetPkValueOnSave (objs_without_pk_of (ents s))"
    using prepare_trace [OF scope(3)] eq by (simp add: objs_without_pk_of_filter)
  from scope(4) show ?thesis
  proof (cases rule: atomic_cases)
    case (commit s2)
    from body_trace_ok [OF commit(1)] commit(3) tr1 eq N show ?thesis by simp
  qed simp
qed simp_all

lemma wbw_length: "length (write_back_without_pk self rs rows es) = length es"
  by (induction self rs rows es rule: write_back_without_pk.induct) simp_all

lemma wbw_other:
  "r \<notin> set (take (length rows) rs) \<Longrightarrow> write_back_without_pk self rs rows es ! r = es ! r"
  by (induction self rs rows es rule: write_back_without_pk.induct) auto

lemma wbw_marked:
  "distinct rs \<Longrightarrow> j < length rs \<Longrightarrow> j < length rows \<Longrightarrow> rs ! j < length es \<Longrightarrow>
     \<not> adding (write_back_without_pk self rs rows es ! (rs ! j)) \<and>
     state_db (write_back_without_pk self rs rows es ! (rs ! j)) = Some (db self)"
proof (induction self rs rows es arbitrary: j rule: write_back_without_pk.induct)
  case (1 self r rs results rows es)
  let ?es = "es[r := mark_saved self (set_results_without_pk self results (es ! r))]"
  show ?case
  proof (cases j)
    case 0
    with "1.prems" have "r \<notin> set (take (length rows) rs)" "r < length es"
      by (auto dest: in_set_takeD)
    then have "write_back_without_pk self rs rows ?es ! r = mark_saved self (set_results_without_pk self results (es ! r))"
      by (simp add: wbw_other)
    with 0 show ?thesis by (simp add: mark_saved_def)
  next
    case (Suc k)
    with "1.prems" have "distinct rs" "k < length rs" "k < length rows" "rs ! k < length ?es"
      by simp_all
    from "1.IH" [OF this] Suc show ?thesis by simp
  qed
qed simp_all

lemma distinct_objs_without_pk_of: "distinct (objs_without_pk_of es)"
  by (simp add: objs_without_pk_of_filter)

lemma objs_without_pk_of_bound: "r \<in> set (objs_without_pk_of es) \<Longrightarrow> r < length es"
  by (simp add: objs_without_pk_of_filter)


lemma restore_filter:
  "restore (map p xs) (filter (\<lambda>x. \<not> p x) xs) (filter p xs) = xs"
  by (induction xs) auto


lemma insert_batches_append:
  "insert_batches (xs @ ys) = insert_batches xs @ insert_batches ys"
  by (induction xs rule: insert_batches.induct) simp_all

lemma insert_batches_keys: "insert_batches (map GetPkValueOnSave rs) = []"
  by (induction rs) simp_all

lemma insert_batches_inserts: "insert_batches (map (\<lambda>c. BatchedInsert c flds n) cs) = cs"
  by (induction cs) simp_all

lemma insert_batches_planned:
  "insert_batches (planned_inserts self N es) =
     chunks_with_pk N (objs_with_pk_of es) @
     (if objs_without_pk_of es = [] then [] else [objs_without_pk_of es])"
  by (simp add: planned_inserts_def insert_batches_append insert_batches_inserts)

lemma success_batches:
  assumes call: "spanner_bulk_create self bs ic uc uf qf s = (None, s')"
    and nonempty: "ents s \<noteq> []"
    and s1: "s1 = snd (spanner_prepare_for_bulk_create self [0..<length (ents s)] s)"
    and N: "N = max_query_params (connection_db self)"
  shows "insert_batches (drop (length (trace s)) (trace s')) =
     chunks_with_pk N (objs_with_pk_of (ents s1)) @
     (if objs_without_pk_of (ents s1) = [] then [] else [objs_without_pk_of (ents s1)])"
proof -
  from success_trace [OF call nonempty s1 N]
  have "drop (length (trace s)) (trace s') =
     map GetPkValueOnSave (objs_without_pk_of (ents s)) @ [AtomicEnter (db self) False] @
     planned_inserts self N (ents s1) @ [AtomicCommit]"
    by (simp add: planned_inserts_def)
  then show ?thesis
    by (simp add: insert_batches_append insert_batches_keys insert_batches_planned)
qed

lemma success_ceiling:
  assumes call: "spanner_bulk_create self bs ic uc uf qf s = (None, s')"
    and nonempty: "ents s \<noteq> []"
    and s1: "s1 = snd (spanner_prepare_for_bulk_create self [0..<length (ents s)] s)"
    and keyed: "objs_with_pk_of (ents s1) \<noteq> []"
  shows "\<exists>n>0. max_query_params (connection_db self) = Some n"
  using call
proof (cases rule: bulk_create_cases)
  case empty
  with nonempty show ?thesis by simp
next
  case (scope oc s1')
  with s1 have eq: "s1' = s1" by simp
  from scope(4) show ?thesis
  proof (cases rule: atomic_cases)
    case (commit s2)
    let ?s1 = "s1'\<lparr>trace := trace s1' @ [AtomicEnter (db self) False]\<rparr>"
    have k: "objs_with_pk_of (ents ?s1) \<noteq> []" using keyed eq by simp
    from commit(1) have "\<exists>s3. insert_with_pk self (max_query_params (connection_db self)) oc uf qf
        (objs_with_pk_of (ents ?s1)) ?s1 = (None, s3)"
      using k by (cases rule: body_cases) auto
    then obtain s3 where "insert_with_pk self (max_query_params (connection_db self)) oc uf qf
        (objs_with_pk_of (ents ?s1)) ?s1 = (None, s3)" ..
    then show ?thesis by (rule iwp_ok) auto
  qed simp
qed simp_all

lemma hint_ignored:
  "0 < h \<Longrightarrow> spanner_bulk_create self (Some h) ic uc uf qf s =
               spanner_bulk_create self None ic uc uf qf s"
  by (simp add: spanner_bulk_create_def)

lemma range_from_nth:
  "k < length (range_from x stop n) \<Longrightarrow> range_from x stop n ! k = x + k * n"
proof (induction x stop n arbitrary: k rule: range_from.induct)
  case (1 x stop step)
  show ?case
  proof (cases "step = 0 \<or> stop \<le> x")
    case True
    with "1.prems" show ?thesis by (subst (asm) range_from.simps) simp
  next
    case False
    then have unfold: "range_from x stop step = x # range_from (x + step) stop step"
      by (subst range_from.simps) simp
    show ?thesis
    proof (cases k)
      case 0
      with unfold show ?thesis by simp
    next
      case (Suc j)
      with "1.prems" unfold have "j < length (range_from (x + step) stop step)" by simp
      from "1.IH" [OF False this] unfold Suc show ?thesis by simp
    qed
  qed
qed

lemma chunked_nth:
  "k < length (chunked n xs) \<Longrightarrow> chunked n xs ! k = slice xs (k * n) n"
  by (simp add: chunked_def range_from_nth)






lemma get_fields_resolved:
  "\<forall>n\<in>set ns. \<exists>f. g n = Inr f \<Longrightarrow> get_fields g ns = Inr (map (\<lambda>n. projr (g n)) ns)"
  by (induction ns) auto


section \<open>The calls of the executor stop at the first one that raises\<close>

lemma call_batched_insert_raised_ok:
  "call_batched_insert self rs flds n oc uf qf s = (Inr rows, s1) \<Longrightarrow> raised s1 = raised s"
  by (auto simp: call_batched_insert_def split: prod.splits)

lemma call_batched_insert_raised_err:
  "call_batched_insert self rs flds n oc uf qf s = (Inl e, s1) \<Longrightarrow>
     raised s1 = raised s @ [(rs, e)]"
  by (auto simp: call_batched_insert_def split: prod.splits)

lemma prepare_raised:
  "spanner_prepare_for_bulk_create self rs s = (res, s1) \<Longrightarrow> raised s1 = raised s"
  by (induction rs arbitrary: s)
     (auto simp: Let_def assign_pk_def split: option.splits if_splits)

text \<open>
  The loop over the chunks makes its calls in order and stops at the first one that
  raises: of the \<open>k\<close> calls made, all returned when the loop returns, and all but the
  last returned and the last raised the exception of the loop otherwise.
\<close>

lemma icw_progress:
  "insert_chunks_with_pk self n oc uf qf cs s = (res, s') \<Longrightarrow>
     \<exists>k nr nx. k \<le> length cs \<and>
       trace s' = trace s @ map (\<lambda>c. BatchedInsert c (concrete_fields self) (Some n)) (take k cs) \<and>
       returned s' = returned s @ nr \<and> raised s' = raised s @ nx \<and>
       (res = None \<longrightarrow> k = length cs \<and> map fst nr = cs \<and> nx = []) \<and>
       (\<forall>e. res = Some e \<longrightarrow> 0 < k \<and> map fst nr = take (k - 1) cs \<and> nx = [(cs ! (k - 1), e)])"
proof (induction cs arbitrary: s)
  case Nil
  then show ?case by simp
next
  case (Cons c cs)
  from Cons.prems show ?case
  proof (cases rule: icw_step)
    case (1 e s1)
    have "(1::nat) \<le> length (c # cs)" by simp
    moreover have "trace s' = trace s @
        map (\<lambda>c. BatchedInsert c (concrete_fields self) (Some n)) (take 1 (c # cs))"
      using call_batched_insert_trace [OF 1(1)] 1(3) by simp
    moreover have "returned s' = returned s @ []"
      using call_batched_insert_returned_err [OF 1(1)] 1(3) by simp
    moreover have "raised s' = raised s @ [((c # cs) ! (1 - 1), e)]"
      using call_batched_insert_raised_err [OF 1(1)] 1(3) by simp
    ultimately show ?thesis using 1(2)
      by - (rule exI [of _ 1], rule exI [of _ "[]"], rule exI [of _ "[(c, e)]"], simp)
  next
    case (2 rows s1)
    let ?s2 = "s1\<lparr>ents := mark_chunk self c (write_back_with_pk self c rows (ents s1))\<rparr>"
    from Cons.IH [OF 2(2)] obtain k nr nx where IH:
      "k \<le> length cs"
      "trace s' = trace ?s2 @ map (\<lambda>c. BatchedInsert c (concrete_fields self) (Some n)) (take k cs)"
      "returned s' = returned ?s2 @ nr" "raised s' = raised ?s2 @ nx"
      "res = None \<longrightarrow> k = length cs \<and> map fst nr = cs \<and> nx = []"
      "\<forall>e. res = Some e \<longrightarrow> 0 < k \<and> map fst nr = take (k - 1) cs \<and> nx = [(cs ! (k - 1), e)]"
      by blast
    have "Suc k \<le> length (c # cs)" using IH(1) by simp
    moreover have "trace s' = trace s @
        map (\<lambda>c. BatchedInsert c (concrete_fields self) (Some n)) (take (Suc k) (c # cs))"
      using IH(2) call_batched_insert_trace [OF 2(1)] by simp
    moreover have "returned s' = returned s @ ((c, length rows) # nr)"
      using IH(3) call_batched_insert_returned_ok [OF 2(1)] by simp
    moreover have "raised s' = raised s @ nx"
      using IH(4) call_batched_insert_raised_ok [OF 2(1)] by simp
    moreover have "res = None \<longrightarrow> Suc k = length (c # cs) \<and>
        map fst ((c, length rows) # nr) = c # cs \<and> nx = []"
      using IH(5) by simp
    moreover have "\<forall>e. res = Some e \<longrightarrow> 0 < Suc k \<and>
        map fst ((c, length rows) # nr) = take (Suc k - 1) (c # cs) \<and>
        nx = [((c # cs) ! (Suc k - 1), e)]"
    proof (intro allI impI)
      fix e assume "res = Some e"
      with IH(6) have k: "0 < k" "map fst nr = take (k - 1) cs" "nx = [(cs ! (k - 1), e)]"
        by simp_all
      from k(1) obtain j where j: "k = Suc j" by (cases k) auto
      with k show "0 < Suc k \<and>
        map fst ((c, length rows) # nr) = take (Suc k - 1) (c # cs) \<and>
        nx = [((c # cs) ! (Suc k - 1), e)]" by simp
    qed
    ultimately show ?thesis
      by - (rule exI [of _ "Suc k"], rule exI [of _ "(c, length rows) # nr"],
            rule exI [of _ nx], blast)
  qed
qed

lemma icw_ok:
  assumes "insert_chunks_with_pk self n oc uf qf cs s = (None, s')"
  shows "trace s' = trace s @ map (\<lambda>c. BatchedInsert c (concrete_fields self) (Some n)) cs"
    and "\<exists>nr. returned s' = returned s @ nr \<and> map fst nr = cs"
    and "raised s' = raised s"
proof -
  from icw_progress [OF assms] obtain k nr nx where p:
    "k \<le> length cs"
    "trace s' = trace s @ map (\<lambda>c. BatchedInsert c (concrete_fields self) (Some n)) (take k cs)"
    "returned s' = returned s @ nr" "raised s' = raised s @ nx"
    "None = (None :: error option) \<longrightarrow> k = length cs \<and> map fst nr = cs \<and> nx = []"
    by blast
  then have k: "k = length cs" "map fst nr = cs" "nx = []" by simp_all
  from p(2) k(1) show "trace s' = trace s @
      map (\<lambda>c. BatchedInsert c (concrete_fields self) (Some n)) cs" by simp
  from p(3) k(2) show "\<exists>nr. returned s' = returned s @ nr \<and> map fst nr = cs" by blast
  from p(4) k(3) show "raised s' = raised s" by simp
qed

lemma icw_fail:
  assumes "insert_chunks_with_pk self n oc uf qf cs s = (Some e, s')"
  shows "\<exists>k nr. 0 < k \<and> k \<le> length cs \<and>
      trace s' = trace s @
        map (\<lambda>c. BatchedInsert c (concrete_fields self) (Some n)) (take k cs) \<and>
      returned s' = returned s @ nr \<and> map fst nr = take (k - 1) cs \<and>
      raised s' = raised s @ [(cs ! (k - 1), e)]"
proof -
  from icw_progress [OF assms] obtain k nr nx where p:
    "k \<le> length cs"
    "trace s' = trace s @ map (\<lambda>c. BatchedInsert c (concrete_fields self) (Some n)) (take k cs)"
    "returned s' = returned s @ nr" "raised s' = raised s @ nx"
    "\<forall>e'. Some e = Some e' \<longrightarrow> 0 < k \<and> map fst nr = take (k - 1) cs \<and>
        nx = [(cs ! (k - 1), e')]"
    by blast
  then have k: "0 < k" "map fst nr = take (k - 1) cs" "nx = [(cs ! (k - 1), e)]" by simp_all
  have "0 < k \<and> k \<le> length cs \<and>
      trace s' = trace s @
        map (\<lambda>c. BatchedInsert c (concrete_fields self) (Some n)) (take k cs) \<and>
      returned s' = returned s @ nr \<and> map fst nr = take (k - 1) cs \<and>
      raised s' = raised s @ [(cs ! (k - 1), e)]"
    using p(1,2,3,4) k by simp
  then show ?thesis by (intro exI)
qed

lemma with_part_ok:
  assumes "(if W \<noteq> [] then insert_with_pk self N oc uf qf W s else (None, s)) = (None, s')"
  shows "trace s' = trace s @
           map (\<lambda>c. BatchedInsert c (concrete_fields self) N) (chunks_with_pk N W)"
    and "\<exists>nr. returned s' = returned s @ nr \<and> map fst nr = chunks_with_pk N W"
    and "raised s' = raised s"
proof -
  have "trace s' = trace s @
           map (\<lambda>c. BatchedInsert c (concrete_fields self) N) (chunks_with_pk N W) \<and>
        (\<exists>nr. returned s' = returned s @ nr \<and> map fst nr = chunks_with_pk N W) \<and>
        raised s' = raised s"
  proof (cases "W = []")
    case True
    with assms have "s' = s" by simp
    moreover from True have "chunks_with_pk N W = []"
      by (simp add: chunks_with_pk_def chunked_Nil split: option.splits)
    ultimately show ?thesis by simp
  next
    case False
    with assms have "insert_with_pk self N oc uf qf W s = (None, s')" by simp
    then obtain n where n: "N = Some n"
      "insert_chunks_with_pk self n oc uf qf (chunked n W) s = (None, s')"
      by (rule iwp_ok)
    from n(1) have ch: "chunks_with_pk N W = chunked n W" by (simp add: chunks_with_pk_def)
    from icw_ok [OF n(2)] show ?thesis by (simp add: chunks_with_pk_def n(1))
  qed
  then show "trace s' = trace s @
           map (\<lambda>c. BatchedInsert c (concrete_fields self) N) (chunks_with_pk N W)"
    and "\<exists>nr. returned s' = returned s @ nr \<and> map fst nr = chunks_with_pk N W"
    and "raised s' = raised s"
    by simp_all
qed

lemma with_part_fail:
  assumes "insert_with_pk self N oc uf qf W s = (Some e, s')"
  shows "(\<exists>k nr. 0 < k \<and> k \<le> length (chunks_with_pk N W) \<and>
            trace s' = trace s @
              map (\<lambda>c. BatchedInsert c (concrete_fields self) N) (take k (chunks_with_pk N W)) \<and>
            returned s' = returned s @ nr \<and> map fst nr = take (k - 1) (chunks_with_pk N W) \<and>
            raised s' = raised s @ [(chunks_with_pk N W ! (k - 1), e)]) \<or>
         (s' = s \<and> (e = TypeError \<or> e = ValueError))"
proof (cases N)
  case None
  with assms show ?thesis by (simp add: insert_with_pk_def)
next
  case (Some n)
  show ?thesis
  proof (cases "n = 0")
    case True
    with Some assms have "s' = s \<and> e = ValueError" by (simp add: insert_with_pk_def)
    then show ?thesis by simp
  next
    case False
    with Some assms have "insert_chunks_with_pk self n oc uf qf (chunked n W) s = (Some e, s')"
      by (simp add: insert_with_pk_def)
    from icw_fail [OF this] have
      "\<exists>k nr. 0 < k \<and> k \<le> length (chunks_with_pk N W) \<and>
            trace s' = trace s @
              map (\<lambda>c. BatchedInsert c (concrete_fields self) N) (take k (chunks_with_pk N W)) \<and>
            returned s' = returned s @ nr \<and> map fst nr = take (k - 1) (chunks_with_pk N W) \<and>
            raised s' = raised s @ [(chunks_with_pk N W ! (k - 1), e)]"
      using Some by (simp add: chunks_with_pk_def)
    then show ?thesis by (rule disjI1)
  qed
qed

lemma iwo_logs:
  assumes "insert_without_pk self N oc uf qf WO s = (res, s')"
  shows "(\<exists>e. res = Some e \<and> returned s' = returned s \<and> raised s' = raised s @ [(WO, e)]) \<or>
         (\<exists>k. returned s' = returned s @ [(WO, k)] \<and> raised s' = raised s \<and>
              (res = None \<or> res = Some AssertionError))"
  using assms
proof (cases rule: iwo_cases)
  case (raise e)
  with call_batched_insert_returned_err [OF raise(1)] call_batched_insert_raised_err [OF raise(1)]
  show ?thesis by simp
next
  case (mismatch rows)
  with call_batched_insert_returned_ok [OF mismatch(1)] call_batched_insert_raised_ok [OF mismatch(1)]
  show ?thesis by simp
next
  case (ok rows s1)
  with call_batched_insert_returned_ok [OF ok(1)] call_batched_insert_raised_ok [OF ok(1)]
  show ?thesis by simp
qed

lemma body_ok:
  assumes "bulk_create_body self N oc uf qf t = (None, t')"
  shows "trace t' = trace t @ planned_inserts self N (ents t)"
    and "\<exists>nr. returned t' = returned t @ nr \<and>
               map fst nr = insert_batches (planned_inserts self N (ents t))"
    and "raised t' = raised t"
proof -
  let ?W = "objs_with_pk_of (ents t)" and ?WO = "objs_without_pk_of (ents t)"
  show "trace t' = trace t @ planned_inserts self N (ents t)"
    using body_trace_ok [OF assms] by (simp add: planned_inserts_def)
  have "(\<exists>nr. returned t' = returned t @ nr \<and>
               map fst nr = insert_batches (planned_inserts self N (ents t))) \<and>
        raised t' = raised t"
    using assms
  proof (cases rule: body_cases)
    case (no_without s1)
    from with_part_ok(2,3) [OF no_without(1)] no_without(2,4) show ?thesis
      by (simp add: insert_batches_planned)
  next
    case (without s1)
    from with_part_ok(2) [OF without(1)] obtain nr where
      nr: "returned s1 = returned t @ nr" "map fst nr = chunks_with_pk N ?W" by blast
    from iwo_logs [OF without(3)] obtain k where
      k: "returned t' = returned s1 @ [(?WO, k)]" "raised t' = raised s1" by auto
    have "returned t' = returned t @ (nr @ [(?WO, k)])" using nr(1) k(1) by simp
    moreover have "map fst (nr @ [(?WO, k)]) = insert_batches (planned_inserts self N (ents t))"
      using nr(2) without(2) by (simp add: insert_batches_planned)
    ultimately have "\<exists>nr. returned t' = returned t @ nr \<and>
               map fst nr = insert_batches (planned_inserts self N (ents t))" by blast
    with k(2) with_part_ok(3) [OF without(1)] show ?thesis by simp
  qed simp
  then show "\<exists>nr. returned t' = returned t @ nr \<and>
               map fst nr = insert_batches (planned_inserts self N (ents t))"
    and "raised t' = raised t" by simp_all
qed

lemma body_fail:
  assumes body: "bulk_create_body self N oc uf qf t = (Some e, t')"
  shows "(\<exists>k nr. 0 < k \<and> k \<le> length (planned_inserts self N (ents t)) \<and>
            trace t' = trace t @ take k (planned_inserts self N (ents t)) \<and>
            returned t' = returned t @ nr \<and>
            map fst nr = take (k - 1) (insert_batches (planned_inserts self N (ents t))) \<and>
            raised t' = raised t @
              [(insert_batches (planned_inserts self N (ents t)) ! (k - 1), e)]) \<or>
         (trace t' = trace t \<and> returned t' = returned t \<and> raised t' = raised t \<and>
            (e = TypeError \<or> e = ValueError)) \<or>
         (trace t' = trace t @ planned_inserts self N (ents t) \<and>
            (\<exists>nr. returned t' = returned t @ nr \<and>
               map fst nr = insert_batches (planned_inserts self N (ents t))) \<and>
            raised t' = raised t \<and> e = AssertionError)"
    (is "?raised \<or> ?range \<or> ?assert")
proof -
  let ?W = "objs_with_pk_of (ents t)" and ?WO = "objs_without_pk_of (ents t)"
  let ?CH = "chunks_with_pk N ?W"
  let ?ins = "\<lambda>c. BatchedInsert c (concrete_fields self) N"
  let ?tail = "if ?WO = [] then [] else [BatchedInsert ?WO (fields_without_auto self) N]"
  have P: "planned_inserts self N (ents t) = map ?ins ?CH @ ?tail"
    by (simp add: planned_inserts_def)
  have PB: "insert_batches (planned_inserts self N (ents t)) =
      ?CH @ (if ?WO = [] then [] else [?WO])"
    by (rule insert_batches_planned)
  from body show ?thesis
  proof (cases rule: body_cases)
    case (with_fail e')
    then have iw: "insert_with_pk self N oc uf qf ?W t = (Some e, t')" by simp
    from with_part_fail [OF iw] show ?thesis
    proof
      assume "\<exists>k nr. 0 < k \<and> k \<le> length ?CH \<and>
            trace t' = trace t @ map ?ins (take k ?CH) \<and>
            returned t' = returned t @ nr \<and> map fst nr = take (k - 1) ?CH \<and>
            raised t' = raised t @ [(?CH ! (k - 1), e)]"
      then obtain k nr where k: "0 < k" "k \<le> length ?CH"
        "trace t' = trace t @ map ?ins (take k ?CH)"
        "returned t' = returned t @ nr" "map fst nr = take (k - 1) ?CH"
        "raised t' = raised t @ [(?CH ! (k - 1), e)]" by blast
      have a: "k \<le> length (planned_inserts self N (ents t))" using k(2) P by simp
      have b: "take k (planned_inserts self N (ents t)) = map ?ins (take k ?CH)"
        using k(2) P by (simp add: take_map)
      have c: "take (k - 1) (insert_batches (planned_inserts self N (ents t))) = take (k - 1) ?CH"
        using k(2) PB by simp
      have "k - 1 < length ?CH" using k(1,2) by simp
      then have d: "insert_batches (planned_inserts self N (ents t)) ! (k - 1) = ?CH ! (k - 1)"
        unfolding PB by (simp add: nth_append)
      have "0 < k \<and> k \<le> length (planned_inserts self N (ents t)) \<and>
            trace t' = trace t @ take k (planned_inserts self N (ents t)) \<and>
            returned t' = returned t @ nr \<and>
            map fst nr = take (k - 1) (insert_batches (planned_inserts self N (ents t))) \<and>
            raised t' = raised t @
              [(insert_batches (planned_inserts self N (ents t)) ! (k - 1), e)]"
        using k a b c d by simp
      then have ?raised by (intro exI)
      then show ?thesis by (rule disjI1)
    next
      assume "t' = t \<and> (e = TypeError \<or> e = ValueError)"
      then have ?range by simp
      then show ?thesis by blast
    qed
  next
    case (no_without s1)
    then show ?thesis by simp
  next
    case (without s1)
    from with_part_ok [OF without(1)] obtain nr where
      w: "trace s1 = trace t @ map ?ins ?CH"
         "returned s1 = returned t @ nr" "map fst nr = ?CH" "raised s1 = raised t"
      by blast
    have tr: "trace t' = trace t @ planned_inserts self N (ents t)"
      using w(1) iwo_trace [OF without(3)] without(2) P by simp
    have len: "length (planned_inserts self N (ents t)) = Suc (length ?CH)"
      using without(2) P by simp
    from iwo_logs [OF without(3)] show ?thesis
    proof
      assume "\<exists>e'. Some e = Some e' \<and> returned t' = returned s1 \<and>
                raised t' = raised s1 @ [(?WO, e')]"
      then have r: "returned t' = returned s1" "raised t' = raised s1 @ [(?WO, e)]" by simp_all
      let ?k = "Suc (length ?CH)"
      have a: "take ?k (planned_inserts self N (ents t)) = planned_inserts self N (ents t)"
        using len by simp
      have c: "take (?k - 1) (insert_batches (planned_inserts self N (ents t))) = ?CH"
        using PB by simp
      have d: "insert_batches (planned_inserts self N (ents t)) ! (?k - 1) = ?WO"
        using PB without(2) by (simp add: nth_append)
      have "0 < ?k \<and> ?k \<le> length (planned_inserts self N (ents t)) \<and>
            trace t' = trace t @ take ?k (planned_inserts self N (ents t)) \<and>
            returned t' = returned t @ nr \<and>
            map fst nr = take (?k - 1) (insert_batches (planned_inserts self N (ents t))) \<and>
            raised t' = raised t @
              [(insert_batches (planned_inserts self N (ents t)) ! (?k - 1), e)]"
        using tr len r w a c d by simp
      then have ?raised by (intro exI)
      then show ?thesis by (rule disjI1)
    next
      assume "\<exists>k. returned t' = returned s1 @ [(?WO, k)] \<and> raised t' = raised s1 \<and>
                (Some e = None \<or> Some e = Some AssertionError)"
      then obtain k where r: "returned t' = returned s1 @ [(?WO, k)]" "raised t' = raised s1"
        "e = AssertionError" by auto
      have "returned t' = returned t @ (nr @ [(?WO, k)])" using r(1) w(2) by simp
      moreover have "map fst (nr @ [(?WO, k)]) =
          insert_batches (planned_inserts self N (ents t))"
        using w(3) without(2) PB by simp
      ultimately have "\<exists>nr. returned t' = returned t @ nr \<and>
               map fst nr = insert_batches (planned_inserts self N (ents t))" by blast
      with tr r(2,3) w(4) have ?assert by simp
      then show ?thesis by blast
    qed
  qed
qed

text \<open>The definitions to unfold when a call is evaluated on the example data.\<close>

lemmas call_defs = spanner_bulk_create_def spanner_check_bulk_create_options_def
  assign_pk_def atomic_def bulk_create_body_def partition_fn_def insert_with_pk_def
  insert_without_pk_def call_batched_insert_def chunked_def slice_def range_from.simps
  mark_saved_def truthy_def names_of_def

lemmas example_defs = example_queryset_def example_features_def exec_store_def exec_fail13_def
  exec_one_row_def
  new_obj_def start_def id_field_def name_field_def tags_field_def example_get_field_def


lemmas call_defs2 = call_defs objs_with_pk_of_def objs_without_pk_of_def chunks_with_pk_def
  fields_without_auto_def planned_inserts_def


section \<open>C1: keys and the is-new flag after a call that returns\<close>

text \<open>
  C1, as amended. For a non-empty list of objects none of which has a key, when the key
  strategy gives a key for every object and \<^verbatim>\<open>spanner_bulk_create\<close> returns, every object of
  the returned list has a key and its \<^verbatim>\<open>_state.adding\<close> flag is false.
\<close>

theorem assigned_keys_are_saved:
  assumes call: "spanner_bulk_create self bs ic uc uf qf s = (None, s')"
    and nonempty: "ents s \<noteq> []"
    and keyless: "\<forall>i<length (ents s). pk (ents s ! i) = None"
    and strategy: "\<forall>i<length (ents s). get_pk_value_on_save self i (ents s ! i) \<noteq> None"
  shows "length (ents s') = length (ents s) \<and>
         (\<forall>i<length (ents s'). pk (ents s' ! i) \<noteq> None \<and> \<not> adding (ents s' ! i))"
  using call
proof (cases rule: bulk_create_cases)
  case empty
  with nonempty show ?thesis by simp
next
  case (scope oc s1)
  let ?n = "length (ents s)"
  have len1: "length (ents s1) = ?n" using scope(3) by (rule prepare_length)
  have keyed: "\<forall>i<length (ents s1). pk (ents s1 ! i) \<noteq> None"
  proof (intro allI impI)
    fix i assume "i < length (ents s1)"
    with len1 have i: "i < ?n" by simp
    then have "i \<in> set [0..<?n]" by simp
    from prepare_pk [OF scope(3) _ this i] keyless strategy i
    show "pk (ents s1 ! i) \<noteq> None" by simp
  qed
  from scope(4) show ?thesis
  proof (cases rule: atomic_cases)
    case (commit s2)
    let ?s1 = "s1\<lparr>trace := trace s1 @ [AtomicEnter (db self) False]\<rparr>"
    have k: "\<forall>i<length (ents ?s1). pk (ents ?s1 ! i) \<noteq> None" using keyed by simp
    have "length (ents s2) = ?n \<and>
        (\<forall>i<?n. pk (ents s2 ! i) \<noteq> None \<and> \<not> adding (ents s2 ! i))"
    proof (intro conjI allI impI)
      from nonempty have "0 < length (ents ?s1)" using len1 by simp
      from body_all_keyed [OF commit(1) k this] len1 show "length (ents s2) = ?n" by simp
    next
      fix i assume "i < ?n"
      then have "i < length (ents ?s1)" using len1 by simp
      from body_all_keyed [OF commit(1) k this] k this
      show "pk (ents s2 ! i) \<noteq> None" by simp
    next
      fix i assume "i < ?n"
      then have "i < length (ents ?s1)" using len1 by simp
      from body_all_keyed [OF commit(1) k this]
      show "\<not> adding (ents s2 ! i)" by simp
    qed
    with commit(3) show ?thesis by simp
  qed simp
qed simp_all

text \<open>
  The claim as stated fails when the key strategy gives \<^verbatim>\<open>None\<close> (a key field without a
  default) and the backend returns no rows: the call returns, the object has no key and
  is still new.
\<close>

theorem unassigned_key_counterexample:
  "fst (spanner_bulk_create
          (example_queryset (example_features False False (Some 2)) (\<lambda>i obj. None) exec_store)
          None False False None None (start [new_obj None])) = None \<and>
   pk (ents (snd (spanner_bulk_create
          (example_queryset (example_features False False (Some 2)) (\<lambda>i obj. None) exec_store)
          None False False None None (start [new_obj None]))) ! 0) = None \<and>
   adding (ents (snd (spanner_bulk_create
          (example_queryset (example_features False False (Some 2)) (\<lambda>i obj. None) exec_store)
          None False False None None (start [new_obj None]))) ! 0)"
  by (simp add: call_defs example_defs)


theorem assigned_keys_are_saved_witness:
  "length (ents (snd (spanner_bulk_create
      (example_queryset (example_features False False (Some 2)) (\<lambda>i obj. Some (VInt (int i)))
         exec_store)
      None False False None None (start [new_obj None, new_obj None, new_obj None])))) = 3 \<and>
   pk (ents (snd (spanner_bulk_create
      (example_queryset (example_features False False (Some 2)) (\<lambda>i obj. Some (VInt (int i)))
         exec_store)
      None False False None None (start [new_obj None, new_obj None, new_obj None]))) ! 2) \<noteq> None \<and>
   \<not> adding (ents (snd (spanner_bulk_create
      (example_queryset (example_features False False (Some 2)) (\<lambda>i obj. Some (VInt (int i)))
         exec_store)
      None False False None None (start [new_obj None, new_obj None, new_obj None]))) ! 2)"
proof -
  let ?q = "example_queryset (example_features False False (Some 2))
              (\<lambda>i obj. Some (VInt (int i))) exec_store"
  let ?s = "start [new_obj None, new_obj None, new_obj None]"
  let ?r = "spanner_bulk_create ?q None False False None None ?s"
  have ok: "fst ?r = None" by (simp add: call_defs example_defs)
  then have call: "?r = (None, snd ?r)" by (simp add: prod_eq_iff)
  have ne: "ents ?s \<noteq> []" by (simp add: start_def)
  have keyless: "\<forall>i<length (ents ?s). pk (ents ?s ! i) = None"
    by (simp add: start_def new_obj_def nth_Cons split: nat.splits)
  have strategy: "\<forall>i<length (ents ?s). get_pk_value_on_save ?q i (ents ?s ! i) \<noteq> None"
    by (simp add: example_queryset_def)
  from assigned_keys_are_saved [OF call ne keyless strategy]
  show ?thesis by (simp add: start_def)
qed


section \<open>C2: the key assigner, then one atomic scope around the inserts\<close>






section \<open>C3: the batch size is the ceiling of the backend\<close>

text \<open>
  C3, as amended. For every call with a positive batch size hint, the hint has no effect:
  the call does what the call without a hint does, and the batch size used for the chunks
  and given to the executor is the maximum number of query parameters of the backend,
  also when the hint is smaller.
\<close>

theorem batch_size_is_backend_ceiling:
  assumes hint: "0 < h"
    and call: "spanner_bulk_create self (Some h) ic uc uf qf s = (None, s')"
    and nonempty: "ents s \<noteq> []"
    and s1: "s1 = snd (spanner_prepare_for_bulk_create self [0..<length (ents s)] s)"
    and N: "N = max_query_params (connection_db self)"
  shows "spanner_bulk_create self None ic uc uf qf s = (None, s') \<and>
         trace s' = trace s @
           map GetPkValueOnSave (objs_without_pk_of (ents s)) @
           [AtomicEnter (db self) False] @
           map (\<lambda>c. BatchedInsert c (concrete_fields self) N)
             (chunks_with_pk N (objs_with_pk_of (ents s1))) @
           (if objs_without_pk_of (ents s1) = [] then []
            else [BatchedInsert (objs_without_pk_of (ents s1)) (fields_without_auto self) N]) @
           [AtomicCommit]"
  using hint_ignored [OF hint, of self ic uc uf qf s] call
    success_trace [OF call nonempty s1 N] by simp


text \<open>
  The claim as stated fails for a hint below the ceiling: with the hint 1 and the ceiling
  2, two objects with a key go to the executor as one batch of two.
\<close>

theorem hint_below_ceiling_counterexample:
  "insert_batches (trace (snd (spanner_bulk_create
      (example_queryset (example_features False False (Some 2)) (\<lambda>i obj. None) exec_store)
      (Some 1) False False None None
      (start [new_obj (Some (VInt 1)), new_obj (Some (VInt 2))])))) = [[0, 1]] \<and>
   insert_batches (trace (snd (spanner_bulk_create
      (example_queryset (example_features False False (Some 2)) (\<lambda>i obj. None) exec_store)
      (Some 1) False False None None
      (start [new_obj (Some (VInt 1)), new_obj (Some (VInt 2))])))) \<noteq> chunked (min 1 2) [0, 1]"
  by (simp add: call_defs example_defs)


theorem batch_size_is_backend_ceiling_witness:
  "spanner_bulk_create
      (example_queryset (example_features False False (Some 2)) (\<lambda>i obj. None) exec_store)
      None False False None None
      (start [new_obj (Some (VInt 1)), new_obj (Some (VInt 2)), new_obj (Some (VInt 3))]) =
   spanner_bulk_create
      (example_queryset (example_features False False (Some 2)) (\<lambda>i obj. None) exec_store)
      (Some 1) False False None None
      (start [new_obj (Some (VInt 1)), new_obj (Some (VInt 2)), new_obj (Some (VInt 3))]) \<and>
   trace (snd (spanner_bulk_create
      (example_queryset (example_features False False (Some 2)) (\<lambda>i obj. None) exec_store)
      (Some 1) False False None None
      (start [new_obj (Some (VInt 1)), new_obj (Some (VInt 2)), new_obj (Some (VInt 3))]))) =
     [AtomicEnter ''default'' False,
      BatchedInsert [0, 1] [id_field, name_field] (Some 2),
      BatchedInsert [2] [id_field, name_field] (Some 2),
      AtomicCommit]"
proof -
  let ?q = "example_queryset (example_features False False (Some 2)) (\<lambda>i obj. None) exec_store"
  let ?s = "start [new_obj (Some (VInt 1)), new_obj (Some (VInt 2)), new_obj (Some (VInt 3))]"
  let ?r = "spanner_bulk_create ?q (Some 1) False False None None ?s"
  have "fst ?r = None" by (simp add: call_defs example_defs)
  then have call: "?r = (None, snd ?r)" by (simp add: prod_eq_iff)
  have hint: "(0::int) < 1" by simp
  have ne: "ents ?s \<noteq> []" by (simp add: start_def)
  have eval: "spanner_bulk_create ?q None False False None None ?s = ?r \<and>
      trace (snd ?r) =
        [AtomicEnter ''default'' False,
         BatchedInsert [0, 1] [id_field, name_field] (Some 2),
         BatchedInsert [2] [id_field, name_field] (Some 2),
         AtomicCommit]"
    by (simp add: call_defs example_defs)
  from batch_size_is_backend_ceiling [OF hint call ne refl refl] eval
  show ?thesis by fast
qed


section \<open>C4: the batches of a call\<close>

text \<open>
  C4, as amended. With the maximum parameter count \<open>N\<close> of the backend, in a call that
  returns the batches given to the executor are the chunks of the objects with a key
  followed by all the objects without a key as one batch; the chunks are non-empty
  contiguous slices of at most \<open>N\<close> rows each (the field count does not divide the
  bound), the \<open>k\<close>-th starting at \<open>k * N\<close>, and their concatenation is the group of the
  objects with a key.
\<close>

theorem batches_bounded_by_ceiling:
  assumes call: "spanner_bulk_create self bs ic uc uf qf s = (None, s')"
    and nonempty: "ents s \<noteq> []"
    and s1: "s1 = snd (spanner_prepare_for_bulk_create self [0..<length (ents s)] s)"
    and N: "N = max_query_params (connection_db self)"
  shows "insert_batches (drop (length (trace s)) (trace s')) =
           chunks_with_pk N (objs_with_pk_of (ents s1)) @
           (if objs_without_pk_of (ents s1) = [] then [] else [objs_without_pk_of (ents s1)]) \<and>
         concat (chunks_with_pk N (objs_with_pk_of (ents s1))) = objs_with_pk_of (ents s1) \<and>
         (\<forall>c\<in>set (chunks_with_pk N (objs_with_pk_of (ents s1))).
            c \<noteq> [] \<and> (\<exists>n. N = Some n \<and> length c \<le> n)) \<and>
         (\<forall>k<length (chunks_with_pk N (objs_with_pk_of (ents s1))).
            \<exists>n. N = Some n \<and>
              chunks_with_pk N (objs_with_pk_of (ents s1)) ! k =
                slice (objs_with_pk_of (ents s1)) (k * n) n)"
proof (intro conjI)
  let ?W = "objs_with_pk_of (ents s1)"
  show "insert_batches (drop (length (trace s)) (trace s')) =
           chunks_with_pk N ?W @
           (if objs_without_pk_of (ents s1) = [] then [] else [objs_without_pk_of (ents s1)])"
    by (rule success_batches [OF call nonempty s1 N])
  show "concat (chunks_with_pk N ?W) = ?W"
  proof (cases "?W = []")
    case True
    then show ?thesis by (simp add: chunks_with_pk_def chunked_Nil split: option.splits)
  next
    case False
    from success_ceiling [OF call nonempty s1 this] N show ?thesis
      by (auto simp: chunks_with_pk_def concat_chunked)
  qed
  show "\<forall>c\<in>set (chunks_with_pk N ?W). c \<noteq> [] \<and> (\<exists>n. N = Some n \<and> length c \<le> n)"
    by (cases N) (auto simp: chunks_with_pk_def dest: chunked_sizes)
  show "\<forall>k<length (chunks_with_pk N ?W).
          \<exists>n. N = Some n \<and> chunks_with_pk N ?W ! k = slice ?W (k * n) n"
    by (cases N) (auto simp: chunks_with_pk_def chunked_nth)
qed


text \<open>
  The claim as stated fails: with \<open>N = 2\<close> and two fields per row the bound of the claim
  is one row, and two objects with a key go to the executor as one batch of two rows.
\<close>

theorem rows_over_params_per_field_counterexample:
  "insert_batches (trace (snd (spanner_bulk_create
      (example_queryset (example_features False False (Some 2)) (\<lambda>i obj. None) exec_store)
      None False False None None
      (start [new_obj (Some (VInt 1)), new_obj (Some (VInt 2))])))) = [[0, 1]] \<and>
   \<not> list_all (\<lambda>c. length c \<le> 2 div length (concrete_fields
      (example_queryset (example_features False False (Some 2)) (\<lambda>i obj. None) exec_store)))
     (insert_batches (trace (snd (spanner_bulk_create
      (example_queryset (example_features False False (Some 2)) (\<lambda>i obj. None) exec_store)
      None False False None None
      (start [new_obj (Some (VInt 1)), new_obj (Some (VInt 2))])))))"
proof -
  let ?q = "example_queryset (example_features False False (Some 2)) (\<lambda>i obj. None) exec_store"
  let ?tr = "trace (snd (spanner_bulk_create ?q None False False None None
      (start [new_obj (Some (VInt 1)), new_obj (Some (VInt 2))])))"
  have b: "insert_batches ?tr = [[0, 1]]" by (simp add: call_defs example_defs)
  have f: "length (concrete_fields ?q) = 2" by (simp add: example_queryset_def)
  have "\<not> length [0::nat, 1] \<le> 2 div 2" by simp
  with b f show ?thesis by simp
qed

theorem batches_bounded_by_ceiling_witness:
  "insert_batches (trace (snd (spanner_bulk_create
      (example_queryset (example_features False False (Some 2)) (\<lambda>i obj. None) exec_store)
      None False False None None
      (start [new_obj (Some (VInt 1)), new_obj None, new_obj (Some (VInt 2)), new_obj None,
              new_obj (Some (VInt 3))])))) = [[0, 2], [4], [1, 3]] \<and>
   objs_with_pk_of [new_obj (Some (VInt 1)), new_obj None, new_obj (Some (VInt 2)), new_obj None,
              new_obj (Some (VInt 3))] = concat [[0, 2], [4]]"
proof -
  let ?q = "example_queryset (example_features False False (Some 2)) (\<lambda>i obj. None) exec_store"
  let ?s = "start [new_obj (Some (VInt 1)), new_obj None, new_obj (Some (VInt 2)), new_obj None,
              new_obj (Some (VInt 3))]"
  let ?r = "spanner_bulk_create ?q None False False None None ?s"
  have "fst ?r = None" by (simp add: call_defs example_defs)
  then have call: "?r = (None, snd ?r)" by (simp add: prod_eq_iff)
  have ne: "ents ?s \<noteq> []" by (simp add: start_def)
  have eval: "insert_batches (trace (snd ?r)) = [[0, 2], [4], [1, 3]] \<and>
      objs_with_pk_of (ents ?s) = concat [[0, 2], [4]]"
    by (simp add: call_defs2 example_defs upt_rec)
  have "ents ?s = [new_obj (Some (VInt 1)), new_obj None, new_obj (Some (VInt 2)), new_obj None,
              new_obj (Some (VInt 3))]" by (simp add: start_def)
  with batches_bounded_by_ceiling [OF call ne refl refl] eval
  show ?thesis by simp
qed

section \<open>C5: the partition is stable\<close>

text \<open>
  C5. The partition of a list puts the items for which the predicate is false (the
  objects with a key) in the first group and the others in the second, each group in the
  order of the original list; putting the two groups back by the original positions gives
  the original list.
\<close>

theorem partition_stable:
  "partition_fn p objs = (filter (\<lambda>obj. \<not> p obj) objs, filter p objs) \<and>
   restore (map p objs) (fst (partition_fn p objs)) (snd (partition_fn p objs)) = objs"
  by (simp add: partition_fn_filter restore_filter)


theorem partition_stable_witness:
  "partition_fn (\<lambda>k. k = None) [None, Some (VInt 7), None, Some (VInt 9)] =
     ([Some (VInt 7), Some (VInt 9)], [None, None]) \<and>
   restore [True, False, True, False] [Some (VInt 7), Some (VInt 9)] [None, None] =
     [None, Some (VInt 7), None, Some (VInt 9)]"
  using partition_stable [of "\<lambda>k. k = None" "[None, Some (VInt 7), None, Some (VInt 9)]"]
  by simp


section \<open>C6: a failing insert leaves no row\<close>

text \<open>
  C6. When the insert of a batch raises \<open>e\<close> during a call of \<^verbatim>\<open>spanner_bulk_create\<close>,
  whatever the batch and whatever the executor and the earlier batches wrote before, the
  call raises \<open>e\<close>, that insert is the only one that raised, the atomic scope is left by
  a rollback and the rows of the database are those from before the call. More
  generally, every call that raises leaves the rows of the database as they were.
\<close>

theorem failed_insert_rolls_back:
  assumes call: "spanner_bulk_create self bs ic uc uf qf s = (res, s')"
  shows "(res \<noteq> None \<longrightarrow> database s' = database s) \<and>
         (\<forall>c e. (c, e) \<in> set (drop (length (raised s)) (raised s')) \<longrightarrow>
            res = Some e \<and> database s' = database s \<and> last (trace s') = AtomicRollback \<and>
            drop (length (raised s)) (raised s') = [(c, e)])"
  using call
proof (cases rule: bulk_create_cases)
  case invalid
  then show ?thesis by simp
next
  case empty
  then show ?thesis by simp
next
  case (options e)
  then show ?thesis by simp
next
  case (prepare oc e)
  from prepare_raised [OF prepare(3)] prepare_database [OF prepare(3)] show ?thesis by simp
next
  case (scope oc s1)
  have r1: "raised s1 = raised s" using scope(3) by (rule prepare_raised)
  have d1: "database s1 = database s" using scope(3) by (rule prepare_database)
  let ?s1 = "s1\<lparr>trace := trace s1 @ [AtomicEnter (db self) False]\<rparr>"
  let ?N = "max_query_params (connection_db self)"
  from scope(4) show ?thesis
  proof (cases rule: atomic_cases)
    case (commit s2)
    from body_ok(3) [OF commit(1)] commit(2,3) r1 show ?thesis by simp
  next
    case (rollback e' s2)
    have db: "database s' = database s" using rollback(3) d1 by simp
    have tr: "last (trace s') = AtomicRollback" using rollback(3) by simp
    have rs: "raised s' = raised s2" using rollback(3) by simp
    from body_fail [OF rollback(1)]
    have "(\<exists>c. raised s2 = raised ?s1 @ [(c, e')]) \<or> raised s2 = raised ?s1" by blast
    then show ?thesis
    proof
      assume "\<exists>c. raised s2 = raised ?s1 @ [(c, e')]"
      then obtain c where "raised s2 = raised ?s1 @ [(c, e')]" ..
      with rs r1 have "drop (length (raised s)) (raised s') = [(c, e')]" by simp
      with db tr rollback(2) show ?thesis by simp
    next
      assume "raised s2 = raised ?s1"
      with rs r1 have "drop (length (raised s)) (raised s') = []" by simp
      with db show ?thesis by simp
    qed
  qed
qed

theorem failed_insert_rolls_back_witness:
  "fst (spanner_bulk_create
          (example_queryset (example_features False False (Some 1)) (\<lambda>i obj. None) exec_fail13)
          None False False None None
          (start [new_obj (Some (VInt 1)), new_obj (Some (VInt 13)), new_obj (Some (VInt 2))]))
     = Some DatabaseError \<and>
   raised (snd (spanner_bulk_create
          (example_queryset (example_features False False (Some 1)) (\<lambda>i obj. None) exec_fail13)
          None False False None None
          (start [new_obj (Some (VInt 1)), new_obj (Some (VInt 13)), new_obj (Some (VInt 2))])))
     = [([1], DatabaseError)] \<and>
   returned (snd (spanner_bulk_create
          (example_queryset (example_features False False (Some 1)) (\<lambda>i obj. None) exec_fail13)
          None False False None None
          (start [new_obj (Some (VInt 1)), new_obj (Some (VInt 13)), new_obj (Some (VInt 2))])))
     = [([0], 0)] \<and>
   database (snd (spanner_bulk_create
          (example_queryset (example_features False False (Some 1)) (\<lambda>i obj. None) exec_fail13)
          None False False None None
          (start [new_obj (Some (VInt 1)), new_obj (Some (VInt 13)), new_obj (Some (VInt 2))])))
     = [] \<and>
   fst (exec_fail13 [] [new_obj (Some (VInt 1))]) = Inr [] \<and>
   snd (exec_fail13 [] [new_obj (Some (VInt 1))]) = [Some (VInt 1)]"
proof -
  let ?r = "spanner_bulk_create
          (example_queryset (example_features False False (Some 1)) (\<lambda>i obj. None) exec_fail13)
          None False False None None
          (start [new_obj (Some (VInt 1)), new_obj (Some (VInt 13)), new_obj (Some (VInt 2))])"
  have eval: "fst ?r = Some DatabaseError \<and> raised (snd ?r) = [([1], DatabaseError)] \<and>
      returned (snd ?r) = [([0], 0)] \<and>
      fst (exec_fail13 [] [new_obj (Some (VInt 1))]) = Inr [] \<and>
      snd (exec_fail13 [] [new_obj (Some (VInt 1))]) = [Some (VInt 1)]"
    by (simp add: call_defs example_defs)
  then have call: "?r = (Some DatabaseError, snd ?r)" by (simp add: prod_eq_iff)
  have entry: "([1], DatabaseError) \<in> set (drop (length (raised
      (start [new_obj (Some (VInt 1)), new_obj (Some (VInt 13)), new_obj (Some (VInt 2))])))
      (raised (snd ?r)))"
    using eval by (simp add: start_def)
  from failed_insert_rolls_back [OF call] entry
  have "database (snd ?r) = database
      (start [new_obj (Some (VInt 1)), new_obj (Some (VInt 13)), new_obj (Some (VInt 2))])"
    by blast
  then have "database (snd ?r) = []" by (simp add: start_def)
  with eval show ?thesis by fast
qed

section \<open>C7: the number of returned rows\<close>






section \<open>C8: contradictory conflict flags\<close>

text \<open>
  C8: with both \<^verbatim>\<open>ignore_conflicts\<close> and \<^verbatim>\<open>update_conflicts\<close> set, the check of the
  options raises \<^verbatim>\<open>ValueError\<close> (the invalid-argument error), whatever the other arguments,
  the model and the feature flags of the backend are.
\<close>

theorem both_conflict_flags_rejected:
  "spanner_check_bulk_create_options self True True update_fields unique_fields = Inl ValueError"
  by (simp add: spanner_check_bulk_create_options_def)

theorem both_conflict_flags_rejected_witness:
  "spanner_check_bulk_create_options
     (example_queryset (example_features True False (Some 2)) (\<lambda>i obj. None) exec_store)
     True True (Some [''name'']) (Some [''pk'']) = Inl ValueError"
  by (rule both_conflict_flags_rejected)


section \<open>C9: the token pk among the unique fields\<close>

text \<open>
  C9. In the check of the options with \<^verbatim>\<open>update_conflicts\<close> set and \<^verbatim>\<open>unique_fields\<close> given
  (on a backend that supports the update of conflicts with a target, and with update
  fields that pass their checks), the name \<^verbatim>\<open>pk\<close> in \<^verbatim>\<open>unique_fields\<close> is allowed and is not
  looked up or checked, while every other name is looked up in the metadata of the model
  and must be concrete and not many-to-many: the check raises \<^verbatim>\<open>ValueError\<close> when one of
  them is not, and gives the update policy otherwise.
\<close>

theorem pk_token_in_unique_fields:
  assumes upsert: "supports_update_conflicts (connections self (db self))"
    and target: "supports_update_conflicts_with_target (connections self (db self))"
    and update_given: "update_fields \<noteq> []"
    and update_ok: "\<forall>n\<in>set update_fields. \<exists>f. get_field self n = Inr f \<and> concrete f \<and>
                      \<not> many_to_many f \<and> \<not> primary_key f"
    and unique_given: "unique_fields \<noteq> []"
    and resolved: "\<forall>n\<in>set unique_fields. n \<noteq> ''pk'' \<longrightarrow> (\<exists>f. get_field self n = Inr f)"
  shows "spanner_check_bulk_create_options self False True (Some update_fields)
           (Some unique_fields) =
         (if \<exists>n\<in>set unique_fields. n \<noteq> ''pk'' \<and>
               (\<not> concrete (projr (get_field self n)) \<or> many_to_many (projr (get_field self n)))
          then Inl ValueError else Inr (Some UPDATE))"
proof -
  from update_ok have "\<forall>n\<in>set update_fields. \<exists>f. get_field self n = Inr f" by blast
  then have u: "get_fields (get_field self) update_fields =
      Inr (map (\<lambda>n. projr (get_field self n)) update_fields)"
    by (rule get_fields_resolved)
  have u1: "\<not> list_ex (\<lambda>f. \<not> concrete f \<or> many_to_many f)
      (map (\<lambda>n. projr (get_field self n)) update_fields)"
    using update_ok by (auto simp: list_ex_iff)
  have u2: "\<not> list_ex primary_key (map (\<lambda>n. projr (get_field self n)) update_fields)"
    using update_ok by (auto simp: list_ex_iff)
  let ?names = "filter (\<lambda>name. name \<noteq> ''pk'') unique_fields"
  from resolved have "\<forall>n\<in>set ?names. \<exists>f. get_field self n = Inr f" by simp
  then have q: "get_fields (get_field self) ?names =
      Inr (map (\<lambda>n. projr (get_field self n)) ?names)"
    by (rule get_fields_resolved)
  have q1: "list_ex (\<lambda>f. \<not> concrete f \<or> many_to_many f)
        (map (\<lambda>n. projr (get_field self n)) ?names) \<longleftrightarrow>
      (\<exists>n\<in>set unique_fields. n \<noteq> ''pk'' \<and>
         (\<not> concrete (projr (get_field self n)) \<or> many_to_many (projr (get_field self n))))"
    by (auto simp: list_ex_iff)
  show ?thesis
    unfolding spanner_check_bulk_create_options_def
    using upsert target update_given unique_given u u1 u2 q q1
    by (simp add: truthy_def names_of_def)
qed


theorem pk_token_in_unique_fields_witness:
  "spanner_check_bulk_create_options
     (example_queryset (example_features True False (Some 2)) (\<lambda>i obj. None) exec_store)
     False True (Some [''name'']) (Some [''pk'', ''name'']) = Inr (Some UPDATE) \<and>
   spanner_check_bulk_create_options
     (example_queryset (example_features True False (Some 2)) (\<lambda>i obj. None) exec_store)
     False True (Some [''name'']) (Some [''pk'', ''tags'']) = Inl ValueError \<and>
   example_get_field ''pk'' = Inl FieldDoesNotExist"
proof -
  let ?q = "example_queryset (example_features True False (Some 2)) (\<lambda>i obj. None) exec_store"
  have upsert: "supports_update_conflicts (connections ?q (db ?q))" by (simp add: example_defs)
  have target: "supports_update_conflicts_with_target (connections ?q (db ?q))"
    by (simp add: example_defs)
  have given: "[''name''] \<noteq> []" "[''pk'', ''name''] \<noteq> []" "[''pk'', ''tags''] \<noteq> []" by simp_all
  have update_ok: "\<forall>n\<in>set [''name'']. \<exists>f. get_field ?q n = Inr f \<and> concrete f \<and>
                      \<not> many_to_many f \<and> \<not> primary_key f"
    by (simp add: example_defs)
  have r1: "\<forall>n\<in>set [''pk'', ''name'']. n \<noteq> ''pk'' \<longrightarrow> (\<exists>f. get_field ?q n = Inr f)"
    by (simp add: example_defs)
  have r2: "\<forall>n\<in>set [''pk'', ''tags'']. n \<noteq> ''pk'' \<longrightarrow> (\<exists>f. get_field ?q n = Inr f)"
    by (simp add: example_defs)
  from pk_token_in_unique_fields [OF upsert target given(1) update_ok given(2) r1]
       pk_token_in_unique_fields [OF upsert target given(1) update_ok given(3) r2]
  show ?thesis by (simp add: example_defs)
qed

section \<open>C10: the write-back of the objects without a key\<close>

text \<open>
  C10. In the write-back of the group without a key, the object at an index at or beyond
  the number of returned rows keeps its \<^verbatim>\<open>_state.adding\<close> flag and its \<^verbatim>\<open>_state.db\<close>
  binding (all of them when no row is returned); an object at an index below that number
  is marked as saved and bound to the connection of the queryset.
\<close>

theorem lacks_key_write_back_by_position:
  assumes "rs = objs_without_pk_of es0" and "length es = length es0" and "j < length rs"
  shows "(length rows \<le> j \<longrightarrow>
            adding (write_back_without_pk self rs rows es ! (rs ! j)) = adding (es ! (rs ! j)) \<and>
            state_db (write_back_without_pk self rs rows es ! (rs ! j)) = state_db (es ! (rs ! j))) \<and>
         (j < length rows \<longrightarrow>
            \<not> adding (write_back_without_pk self rs rows es ! (rs ! j)) \<and>
            state_db (write_back_without_pk self rs rows es ! (rs ! j)) = Some (db self))"
proof (intro conjI impI)
  have d: "distinct rs" using assms(1) by (simp add: distinct_objs_without_pk_of)
  have b: "rs ! j < length es"
    using assms objs_without_pk_of_bound [of "rs ! j" es0] by simp
  {
    assume "length rows \<le> j"
    have "rs ! j \<notin> set (take (length rows) rs)"
    proof
      assume "rs ! j \<in> set (take (length rows) rs)"
      then obtain k where k: "k < length (take (length rows) rs)" "take (length rows) rs ! k = rs ! j"
        by (auto simp: in_set_conv_nth)
      then have "k < length rows" "k < length rs" "rs ! k = rs ! j" by simp_all
      with d assms(3) have "k = j" by (simp add: nth_eq_iff_index_eq)
      with \<open>k < length rows\<close> \<open>length rows \<le> j\<close> show False by simp
    qed
    then have same: "write_back_without_pk self rs rows es ! (rs ! j) = es ! (rs ! j)"
      by (rule wbw_other)
    show "adding (write_back_without_pk self rs rows es ! (rs ! j)) = adding (es ! (rs ! j))"
      using same by simp
    show "state_db (write_back_without_pk self rs rows es ! (rs ! j)) = state_db (es ! (rs ! j))"
      using same by simp
  }
  {
    assume "j < length rows"
    note m = wbw_marked [OF d assms(3) this b, of self]
    show "\<not> adding (write_back_without_pk self rs rows es ! (rs ! j))"
      using m by simp
    show "state_db (write_back_without_pk self rs rows es ! (rs ! j)) = Some (db self)"
      using m by simp
  }
qed

theorem lacks_key_write_back_by_position_witness:
  "adding (write_back_without_pk
             (example_queryset (example_features False True (Some 2)) (\<lambda>i obj. None) exec_store)
             [0, 2] [[]] [new_obj None, new_obj (Some (VInt 5)), new_obj None] ! 2) \<and>
   state_db (write_back_without_pk
             (example_queryset (example_features False True (Some 2)) (\<lambda>i obj. None) exec_store)
             [0, 2] [[]] [new_obj None, new_obj (Some (VInt 5)), new_obj None] ! 2) = None \<and>
   \<not> adding (write_back_without_pk
             (example_queryset (example_features False True (Some 2)) (\<lambda>i obj. None) exec_store)
             [0, 2] [[]] [new_obj None, new_obj (Some (VInt 5)), new_obj None] ! 0)"
proof -
  let ?es = "[new_obj None, new_obj (Some (VInt 5)), new_obj None]"
  have rs: "[0, 2] = objs_without_pk_of ?es"
    by (simp add: objs_without_pk_of_def partition_fn_def new_obj_def upt_rec)
  have a: "(1::nat) < length [0::nat, 2]" and b: "(0::nat) < length [0::nat, 2]" by simp_all
  let ?q = "example_queryset (example_features False True (Some 2)) (\<lambda>i obj. None) exec_store"
  from lacks_key_write_back_by_position [OF rs refl a, where rows = "[[]]" and self = ?q]
       lacks_key_write_back_by_position [OF rs refl b, where rows = "[[]]" and self = ?q]
  show ?thesis by (simp add: new_obj_def)
qed

end
